theory Spec2Isabelle
  imports Complex_Main
begin

section \<open>JavaScript strings\<close>

text \<open>
  A JavaScript string is a sequence of UTF-16 code units. A code unit is modelled as a
  natural number and a string as a list of them; every JavaScript string is such a list
  (with elements below 65536), and the theorems below hold for all lists. \<open>js\<close> turns
  an ASCII literal into code units, so that the literals of \<^verbatim>\<open>bot.js\<close> stay readable.
\<close>

type_synonym jschar = nat
type_synonym jsstring = "jschar list"

definition js :: "string \<Rightarrow> jsstring" where
  "js s = map of_char s"

text \<open>
  WhiteSpace and LineTerminator of ECMAScript: the code units that \<^verbatim>\<open>String.prototype.trim\<close>
  strips, that \<^verbatim>\<open>\s\<close> matches and that \<^verbatim>\<open>Number\<close> skips around a numeric literal.
\<close>

definition is_space :: "jschar \<Rightarrow> bool" where
  "is_space c \<longleftrightarrow>
     c = 9 \<or> c = 10 \<or> c = 11 \<or> c = 12 \<or> c = 13 \<or> c = 32 \<or> c = 160 \<or> c = 5760 \<or>
     (8192 \<le> c \<and> c \<le> 8202) \<or> c = 8232 \<or> c = 8233 \<or> c = 8239 \<or> c = 8287 \<or>
     c = 12288 \<or> c = 65279"

definition is_digit :: "jschar \<Rightarrow> bool" where
  "is_digit c \<longleftrightarrow> 48 \<le> c \<and> c \<le> 57"

definition trim :: "jsstring \<Rightarrow> jsstring" where
  "trim s = rev (dropWhile is_space (rev (dropWhile is_space s)))"

text \<open>
  \<^verbatim>\<open>s.split(sep)\<close> for a separator that matches exactly one code unit (the regular
  expression \<^verbatim>\<open>/[:.]/\<close>, the string \<^verbatim>\<open>':'\<close>): the pieces between the separators, one more
  than there are separators; the empty string gives one empty piece.
\<close>

fun split_on :: "(jschar \<Rightarrow> bool) \<Rightarrow> jsstring \<Rightarrow> jsstring list" where
  "split_on p [] = [[]]"
| "split_on p (c # cs) =
     (if p c then [] # split_on p cs
      else (case split_on p cs of
              [] \<Rightarrow> [[c]]
            | g # gs \<Rightarrow> (c # g) # gs))"

text \<open>\<^verbatim>\<open>s.startsWith(t)\<close>, and \<^verbatim>\<open>s.includes(t)\<close>: \<open>t\<close> occurs in \<open>s\<close> as a contiguous substring.\<close>

fun startsWith :: "jsstring \<Rightarrow> jsstring \<Rightarrow> bool" where
  "startsWith s [] = True"
| "startsWith [] (d # ds) = False"
| "startsWith (c # cs) (d # ds) = (c = d \<and> startsWith cs ds)"

fun js_includes :: "jsstring \<Rightarrow> jsstring \<Rightarrow> bool" where
  "js_includes [] t = (t = [])"
| "js_includes (c # cs) t = (startsWith (c # cs) t \<or> js_includes cs t)"

section \<open>JavaScript numbers\<close>

text \<open>
  A Number is NaN, an infinity, or a finite double, kept as the rational it denotes.
  Negative zero is identified with zero: the program only compares numbers and prints
  them, and \<^verbatim>\<open>-0 < 0\<close> is false and \<^verbatim>\<open>String(-0)\<close> is \<^verbatim>\<open>"0"\<close>.

  IEEE rounding and the shortest-digits printing of doubles are not part of the embedding.
  They are the two fields of the record \<open>ieee\<close>, a parameter of every function that
  converts numbers: \<open>round_inexact\<close> is consulted only for a mathematical value that is not
  an integer of magnitude at most \<open>2^53\<close> (such integers are doubles, and rounding leaves
  them alone), \<open>show_inexact\<close> only to print such a value. A theorem that quantifies over
  the record holds whatever the runtime does there.
\<close>

datatype jsnum = NaN | PosInf | NegInf | Fin rat

record ieee =
  round_inexact :: "rat \<Rightarrow> jsnum"
  show_inexact :: "rat \<Rightarrow> jsstring"

definition safe_integer :: "rat \<Rightarrow> bool" where
  "safe_integer q \<longleftrightarrow> q = of_int \<lfloor>q\<rfloor> \<and> \<bar>q\<bar> \<le> 9007199254740992"

definition js_round :: "ieee \<Rightarrow> rat \<Rightarrow> jsnum" where
  "js_round fp q = (if safe_integer q then Fin q else round_inexact fp q)"

definition isNaN :: "jsnum \<Rightarrow> bool" where
  "isNaN x \<longleftrightarrow> x = NaN"

text \<open>The relational operators; every comparison with NaN is false.\<close>

fun js_lt :: "jsnum \<Rightarrow> jsnum \<Rightarrow> bool" where
  "js_lt NaN y = False"
| "js_lt x NaN = False"
| "js_lt PosInf y = False"
| "js_lt x NegInf = False"
| "js_lt NegInf y = True"
| "js_lt x PosInf = True"
| "js_lt (Fin a) (Fin b) = (a < b)"

definition js_gt :: "jsnum \<Rightarrow> jsnum \<Rightarrow> bool" where
  "js_gt x y = js_lt y x"

definition js_ge :: "jsnum \<Rightarrow> jsnum \<Rightarrow> bool" where
  "js_ge x y \<longleftrightarrow> x \<noteq> NaN \<and> y \<noteq> NaN \<and> \<not> js_lt x y"

text \<open>Multiplication, addition and subtraction of doubles: the exact result, rounded.\<close>

fun js_neg :: "jsnum \<Rightarrow> jsnum" where
  "js_neg NaN = NaN"
| "js_neg PosInf = NegInf"
| "js_neg NegInf = PosInf"
| "js_neg (Fin a) = Fin (- a)"

fun js_mul :: "ieee \<Rightarrow> jsnum \<Rightarrow> jsnum \<Rightarrow> jsnum" where
  "js_mul fp NaN y = NaN"
| "js_mul fp x NaN = NaN"
| "js_mul fp (Fin a) (Fin b) = js_round fp (a * b)"
| "js_mul fp (Fin a) y = (if a = 0 then NaN else if 0 < a then y else js_neg y)"
| "js_mul fp x (Fin b) = (if b = 0 then NaN else if 0 < b then x else js_neg x)"
| "js_mul fp x y = (if x = y then PosInf else NegInf)"

fun js_add :: "ieee \<Rightarrow> jsnum \<Rightarrow> jsnum \<Rightarrow> jsnum" where
  "js_add fp NaN y = NaN"
| "js_add fp x NaN = NaN"
| "js_add fp (Fin a) (Fin b) = js_round fp (a + b)"
| "js_add fp (Fin a) y = y"
| "js_add fp x (Fin b) = x"
| "js_add fp x y = (if x = y then x else NaN)"

definition js_sub :: "ieee \<Rightarrow> jsnum \<Rightarrow> jsnum \<Rightarrow> jsnum" where
  "js_sub fp x y = js_add fp x (js_neg y)"

subsection \<open>\<^verbatim>\<open>Number(string)\<close>\<close>

text \<open>
  StringToNumber of ECMAScript: white space around the literal is skipped, the empty
  string is 0, a decimal literal may carry a sign, a fraction and an exponent,
  \<^verbatim>\<open>Infinity\<close> may carry a sign, and hexadecimal, octal and binary integers take no sign.
  Anything else is NaN.
\<close>

definition dec_value :: "jsstring \<Rightarrow> nat" where
  "dec_value ds = foldl (\<lambda>a c. 10 * a + (c - 48)) 0 ds"

definition hex_digit :: "jschar \<Rightarrow> nat option" where
  "hex_digit c =
     (if 48 \<le> c \<and> c \<le> 57 then Some (c - 48)
      else if 97 \<le> c \<and> c \<le> 102 then Some (c - 87)
      else if 65 \<le> c \<and> c \<le> 70 then Some (c - 55)
      else None)"

definition radix_value :: "nat \<Rightarrow> jsstring \<Rightarrow> nat option" where
  "radix_value b ds =
     (if ds = [] then None
      else foldl (\<lambda>acc c. case (acc, hex_digit c) of
                     (Some a, Some d) \<Rightarrow> if d < b then Some (b * a + d) else None
                   | _ \<Rightarrow> None) (Some 0) ds)"

text \<open>The mathematical value of a literal: none (not a literal), an infinity, or a rational.\<close>

datatype mv = NotNumeric | Infinite bool | Exact rat

definition exponent_part :: "jsstring \<Rightarrow> int option" where
  "exponent_part r =
     (case r of
        [] \<Rightarrow> Some 0
      | e # r1 \<Rightarrow>
          if e = 101 \<or> e = 69 then
            (let (neg, ds) = (case r1 of
                                [] \<Rightarrow> (False, [])
                              | s # r2 \<Rightarrow> if s = 45 then (True, r2)
                                          else if s = 43 then (False, r2)
                                          else (False, r1))
             in if ds \<noteq> [] \<and> list_all is_digit ds
                then Some (if neg then - int (dec_value ds) else int (dec_value ds))
                else None)
          else None)"

definition scale10 :: "nat \<Rightarrow> int \<Rightarrow> rat" where
  "scale10 m e = (if 0 \<le> e then of_nat m * 10 ^ nat e else of_nat m / 10 ^ nat (- e))"

definition unsigned_decimal :: "jsstring \<Rightarrow> mv" where
  "unsigned_decimal u =
     (if u = js ''Infinity'' then Infinite False
      else
        (let ip = takeWhile is_digit u; r1 = dropWhile is_digit u;
             (frac, r2) = (case r1 of
                             [] \<Rightarrow> ([], [])
                           | d # r \<Rightarrow> if d = 46 then (takeWhile is_digit r, dropWhile is_digit r)
                                       else ([], r1))
         in if ip = [] \<and> frac = [] then NotNumeric
            else (case exponent_part r2 of
                    None \<Rightarrow> NotNumeric
                  | Some e \<Rightarrow> Exact (scale10 (dec_value (ip @ frac)) (e - int (length frac))))))"

definition mv_neg :: "mv \<Rightarrow> mv" where
  "mv_neg v = (case v of NotNumeric \<Rightarrow> NotNumeric
                       | Infinite b \<Rightarrow> Infinite (\<not> b)
                       | Exact q \<Rightarrow> Exact (- q))"

definition non_decimal :: "jsstring \<Rightarrow> mv option" where
  "non_decimal u =
     (case u of
        z # x # ds \<Rightarrow>
          if z \<noteq> 48 then None
          else (let b = (if x = 120 \<or> x = 88 then 16 else if x = 111 \<or> x = 79 then 8
                         else if x = 98 \<or> x = 66 then 2 else 0)
                in if b = 0 then None
                   else Some (case radix_value b ds of
                                None \<Rightarrow> NotNumeric
                              | Some n \<Rightarrow> Exact (of_nat n)))
      | _ \<Rightarrow> None)"

definition literal_value :: "jsstring \<Rightarrow> mv" where
  "literal_value s =
     (let u = trim s in
      case u of
        [] \<Rightarrow> Exact 0
      | c # cs \<Rightarrow>
          if c = 43 then unsigned_decimal cs
          else if c = 45 then mv_neg (unsigned_decimal cs)
          else (case non_decimal u of
                  Some v \<Rightarrow> v
                | None \<Rightarrow> unsigned_decimal u))"

definition Number :: "ieee \<Rightarrow> jsstring \<Rightarrow> jsnum" where
  "Number fp s =
     (case literal_value s of
        NotNumeric \<Rightarrow> NaN
      | Infinite neg \<Rightarrow> (if neg then NegInf else PosInf)
      | Exact q \<Rightarrow> js_round fp q)"

subsection \<open>\<^verbatim>\<open>String(number)\<close> and \<^verbatim>\<open>padStart\<close>\<close>

function dec_digits :: "nat \<Rightarrow> jsstring" where
  "dec_digits n = (if n < 10 then [48 + n] else dec_digits (n div 10) @ [48 + n mod 10])"
  by pat_completeness auto
termination
  by (relation "measure (\<lambda>n. n)") auto

declare dec_digits.simps [simp del]

definition String_of :: "ieee \<Rightarrow> jsnum \<Rightarrow> jsstring" where
  "String_of fp x =
     (case x of
        NaN \<Rightarrow> js ''NaN''
      | PosInf \<Rightarrow> js ''Infinity''
      | NegInf \<Rightarrow> js ''-Infinity''
      | Fin q \<Rightarrow>
          if safe_integer q
          then (if q < 0 then 45 # dec_digits (nat (- \<lfloor>q\<rfloor>)) else dec_digits (nat \<lfloor>q\<rfloor>))
          else show_inexact fp q)"

definition padStart :: "jsstring \<Rightarrow> nat \<Rightarrow> jschar \<Rightarrow> jsstring" where
  "padStart s n c = replicate (n - length s) c @ s"

section \<open>Timestamp parsing\<close>

text \<open>
  \<^verbatim>\<open>normaliseTimestamp(raw)\<close>: \<open>None\<close> is the \<^verbatim>\<open>null\<close> of the source. The three
  destructuring branches and the sanity check are those of the source, in its order.
\<close>

definition is_sep :: "jschar \<Rightarrow> bool" where
  "is_sep c \<longleftrightarrow> c = 58 \<or> c = 46"

definition pad :: "ieee \<Rightarrow> jsnum \<Rightarrow> jsstring" where
  "pad fp n = padStart (String_of fp n) 2 48"

definition sanity_and_format :: "ieee \<Rightarrow> jsnum \<Rightarrow> jsnum \<Rightarrow> jsnum \<Rightarrow> jsstring option" where
  "sanity_and_format fp hours minutes seconds =
     (if js_lt seconds (Fin 0) \<or> js_gt seconds (Fin 59) \<or> js_lt minutes (Fin 0)
         \<or> js_gt minutes (Fin 59) \<or> js_lt hours (Fin 0)
      then None
      else Some (pad fp hours @ [58] @ pad fp minutes @ [58] @ pad fp seconds))"

definition normaliseTimestamp :: "ieee \<Rightarrow> jsstring \<Rightarrow> jsstring option" where
  "normaliseTimestamp fp raw =
     (let trimmed = trim raw;
          parts = map (Number fp) (split_on is_sep trimmed)
      in if list_ex isNaN parts then None
         else (case parts of
                 [hours, minutes, seconds] \<Rightarrow> sanity_and_format fp hours minutes seconds
               | [minutes, seconds] \<Rightarrow> sanity_and_format fp (Fin 0) minutes seconds
               | [seconds] \<Rightarrow> sanity_and_format fp (Fin 0) (Fin 0) seconds
               | _ \<Rightarrow> None))"

section \<open>Regular expressions\<close>

text \<open>
  The two regular expressions of \<^verbatim>\<open>bot.js\<close> use literals, character classes, sequence,
  alternation and greedy quantifiers, and no look-around or back-reference. For this
  fragment the backtracking matcher of ECMAScript is the list of its successes:
  \<open>matches i r s\<close> lists, in the order in which backtracking tries them, the rests of \<open>s\<close>
  left over by a match of \<open>r\<close> at the start of \<open>s\<close>. The head of the list is the match
  that \<^verbatim>\<open>exec\<close> reports. The flag \<open>i\<close> is the \<^verbatim>\<open>/i\<close> flag.

  With \<^verbatim>\<open>/i\<close> (and no \<^verbatim>\<open>/u\<close>) two code units match when their canonical forms are equal.
  Canonicalisation maps an ASCII letter to its upper case and never maps a code unit
  from 128 on to one below 128; every literal of the patterns is ASCII, so upper-casing
  the ASCII letters decides every comparison that the patterns make.
\<close>

datatype re = Eps | Lit jschar | Cls "jschar \<Rightarrow> bool" | Seq re re | Alt re re | Opt re | Star re

definition canonicalize :: "jschar \<Rightarrow> jschar" where
  "canonicalize c = (if 97 \<le> c \<and> c \<le> 122 then c - 32 else c)"

definition lit_eq :: "bool \<Rightarrow> jschar \<Rightarrow> jschar \<Rightarrow> bool" where
  "lit_eq i c d = (if i then canonicalize d = canonicalize c else d = c)"

text \<open>
  A greedy quantifier first tries one more iteration and then the continuation; an
  iteration that consumes nothing is rejected (the empty check of RepeatMatcher). Each
  accepted iteration shortens the input, so \<open>length s\<close> rounds suffice.
\<close>

fun star_iter :: "(jsstring \<Rightarrow> jsstring list) \<Rightarrow> nat \<Rightarrow> jsstring \<Rightarrow> jsstring list" where
  "star_iter f 0 s = [s]"
| "star_iter f (Suc n) s =
     concat (map (star_iter f n) (filter (\<lambda>t. length t < length s) (f s))) @ [s]"

fun matches :: "bool \<Rightarrow> re \<Rightarrow> jsstring \<Rightarrow> jsstring list" where
  "matches i Eps s = [s]"
| "matches i (Lit c) s = (case s of [] \<Rightarrow> [] | d # ds \<Rightarrow> if lit_eq i c d then [ds] else [])"
| "matches i (Cls p) s = (case s of [] \<Rightarrow> [] | d # ds \<Rightarrow> if p d then [ds] else [])"
| "matches i (Seq a b) s = concat (map (\<lambda>t. matches i b t) (matches i a s))"
| "matches i (Alt a b) s = matches i a s @ matches i b s"
| "matches i (Opt a) s = filter (\<lambda>t. length t < length s) (matches i a s) @ [s]"
| "matches i (Star a) s = star_iter (\<lambda>t. matches i a t) (length s) s"

text \<open>The length of the match that starts at the beginning of \<open>s\<close>, if there is one.\<close>

definition match_here :: "bool \<Rightarrow> re \<Rightarrow> jsstring \<Rightarrow> nat option" where
  "match_here i r s = (case matches i r s of [] \<Rightarrow> None | t # _ \<Rightarrow> Some (length s - length t))"

text \<open>The leftmost match: its start index and its length.\<close>

fun search :: "bool \<Rightarrow> re \<Rightarrow> jsstring \<Rightarrow> (nat \<times> nat) option" where
  "search i r [] = (case match_here i r [] of None \<Rightarrow> None | Some n \<Rightarrow> Some (0, n))"
| "search i r (c # cs) =
     (case match_here i r (c # cs) of
        Some n \<Rightarrow> Some (0, n)
      | None \<Rightarrow> (case search i r cs of None \<Rightarrow> None | Some (k, n) \<Rightarrow> Some (Suc k, n)))"

text \<open>\<^verbatim>\<open>text.match(regex)\<close> without \<^verbatim>\<open>/g\<close>, then \<^verbatim>\<open>match[0]\<close>.\<close>

definition match_first :: "bool \<Rightarrow> re \<Rightarrow> jsstring \<Rightarrow> jsstring option" where
  "match_first i r s =
     (case search i r s of None \<Rightarrow> None | Some (k, n) \<Rightarrow> Some (take n (drop k s)))"

text \<open>
  \<^verbatim>\<open>text.match(regex)\<close> with \<^verbatim>\<open>/g\<close>: all matches from left to right, each search
  resuming where the match before ended (one code unit further after an empty match).
  The source's \<^verbatim>\<open>null\<close> for no match at all is the empty list.
\<close>

function match_all :: "bool \<Rightarrow> re \<Rightarrow> jsstring \<Rightarrow> jsstring list" where
  "match_all i r s =
     (case search i r s of
        None \<Rightarrow> []
      | Some (k, n) \<Rightarrow>
          take n (drop k s) #
            (if n = 0 then (if k < length s then match_all i r (drop (Suc k) s) else [])
             else match_all i r (drop (k + n) s)))"
  by pat_completeness auto
termination
proof (relation "measure (\<lambda>(i, r, s). length s)")
  show "wf (measure (\<lambda>(i, r, s). length s))" by simp
next
  fix i r s x2 k n
  assume "search i r s = Some x2" "(k, n) = x2" "n = 0" "k < length s"
  then show "((i, r, drop (Suc k) s), i, r, s) \<in> measure (\<lambda>(i, r, s). length s)"
    by simp
next
  fix i r s x2 k n
  assume a: "search i r s = Some x2" "(k, n) = x2" "n \<noteq> 0"
  have "search i r t = Some (j, l) \<Longrightarrow> j + l \<le> length t" for t j l
    by (induction t arbitrary: j l)
       (auto simp: match_here_def split: list.splits option.splits)
  with a have "k + n \<le> length s" by simp
  with a show "((i, r, drop (k + n) s), i, r, s) \<in> measure (\<lambda>(i, r, s). length s)"
    by simp
qed

declare match_all.simps [simp del]

section \<open>URL extraction\<close>

definition str :: "string \<Rightarrow> re" where
  "str cs = foldr (\<lambda>c r. Seq (Lit (of_char c)) r) cs Eps"

definition seqs :: "re list \<Rightarrow> re" where
  "seqs rs = foldr Seq rs Eps"

definition plus :: "re \<Rightarrow> re" where
  "plus r = Seq r (Star r)"

definition not_space :: "jschar \<Rightarrow> bool" where
  "not_space c \<longleftrightarrow> \<not> is_space c"

definition not_space_amp :: "jschar \<Rightarrow> bool" where
  "not_space_amp c \<longleftrightarrow> \<not> (is_space c \<or> c = 38)"

definition not_space_qm :: "jschar \<Rightarrow> bool" where
  "not_space_qm c \<longleftrightarrow> \<not> (is_space c \<or> c = 63)"

text \<open>
  \<^verbatim>\<open>/(?:https?:\/\/)?(?:www\.)?(?:youtube\.com\/(?:watch\?[^\s]*v=[^\s&]+|shorts\/[^\s?]+|live\/[^\s?]+)|youtu\.be\/[^\s?]+)(?:[^\s]*)?/i\<close>
\<close>

definition youtube_regex :: re where
  "youtube_regex =
     seqs [Opt (seqs [str ''http'', Opt (Lit 115), str ''://'']),
           Opt (str ''www.''),
           Alt (seqs [str ''youtube.com/'',
                      Alt (seqs [str ''watch?'', Star (Cls not_space), str ''v='',
                                 plus (Cls not_space_amp)])
                          (Alt (seqs [str ''shorts/'', plus (Cls not_space_qm)])
                               (seqs [str ''live/'', plus (Cls not_space_qm)]))])
               (seqs [str ''youtu.be/'', plus (Cls not_space_qm)]),
           Opt (Star (Cls not_space))]"

definition extractYouTubeUrl :: "jsstring \<Rightarrow> jsstring option" where
  "extractYouTubeUrl text = match_first True youtube_regex text"

section \<open>Timestamp pairs\<close>

text \<open>\<^verbatim>\<open>/(\d{1,2}(?:[:.]\d{1,2}){1,2})/g\<close>; \<^verbatim>\<open>r{1,2}\<close> is \<^verbatim>\<open>r\<close> followed by an optional \<^verbatim>\<open>r\<close>.\<close>

definition digits12 :: re where
  "digits12 = Seq (Cls is_digit) (Opt (Cls is_digit))"

definition sep_group :: re where
  "sep_group = Seq (Cls is_sep) digits12"

definition tsPattern :: re where
  "tsPattern = Seq digits12 (Seq sep_group (Opt sep_group))"

record timestamps =
  startTime :: jsstring
  endTime :: jsstring

text \<open>
  \<^verbatim>\<open>!start\<close> is true for \<^verbatim>\<open>null\<close> and for the empty string, so both are tested.
\<close>

definition extractTimestamps :: "ieee \<Rightarrow> jsstring \<Rightarrow> timestamps option" where
  "extractTimestamps fp text =
     (case match_all False tsPattern text of
        m0 # m1 # _ \<Rightarrow>
          (case (normaliseTimestamp fp m0, normaliseTimestamp fp m1) of
             (Some start, Some end) \<Rightarrow>
               if start = [] \<or> end = [] then None
               else Some \<lparr>startTime = start, endTime = end\<rparr>
           | _ \<Rightarrow> None)
      | _ \<Rightarrow> None)"

text \<open>
  \<^verbatim>\<open>toSeconds\<close>: a missing element of the destructured array is \<^verbatim>\<open>undefined\<close>, which
  arithmetic turns into NaN.
\<close>

definition element :: "jsnum list \<Rightarrow> nat \<Rightarrow> jsnum" where
  "element xs k = (if k < length xs then xs ! k else NaN)"

definition toSeconds :: "ieee \<Rightarrow> jsstring \<Rightarrow> jsnum" where
  "toSeconds fp hhmmss =
     (let parts = map (Number fp) (split_on (\<lambda>c. c = 58) hhmmss);
          h = element parts 0; m = element parts 1; s = element parts 2
      in js_add fp (js_add fp (js_mul fp h (Fin 3600)) (js_mul fp m (Fin 60))) s)"

section \<open>The transport and the session store\<close>

text \<open>
  The chat transport is an external collaborator. Every call the program makes to it, and
  every external command it runs, is appended to \<open>outbox\<close>, in the order of the calls.
  \<^verbatim>\<open>pendingRequests\<close> is the in-memory object of the source, keyed by chat id. \<open>files\<close>
  is the listing of the temporary directory \<^verbatim>\<open>TMP_DIR\<close>: file names and sizes.

  An event handler is modelled as one step on the world. Between two \<^verbatim>\<open>await\<close>s a handler
  runs without interruption; the reads and writes of \<^verbatim>\<open>pendingRequests\<close> in each handler
  sit between two \<^verbatim>\<open>await\<close>s, so the step is atomic for the store. A transport call whose
  rejection the source does not catch is taken to succeed.
\<close>

type_synonym chat_id = int
type_synonym message_id = int

record pending_request = timestamps +
  url :: jsstring

type_synonym keyboard = "(jsstring \<times> jsstring) list list"

datatype send_options = Plain | Markdown | InlineKeyboard keyboard

datatype action =
    SendMessage chat_id jsstring send_options
  | AnswerCallbackQuery jsstring
  | EditMessageReplyMarkup chat_id message_id keyboard
  | EditMessageText chat_id message_id jsstring
  | RunCommand jsstring "jsstring list"
  | SendAudio chat_id jsstring jsstring "jsnum option"
  | SendVideo chat_id jsstring jsstring "jsnum option"

type_synonym directory = "(jsstring \<times> nat) list"

record world =
  pendingRequests :: "chat_id \<rightharpoonup> pending_request"
  files :: directory
  outbox :: "action list"

definition send :: "action \<Rightarrow> world \<Rightarrow> world" where
  "send a w = w\<lparr>outbox := outbox w @ [a]\<rparr>"

subsection \<open>Text messages\<close>

record message =
  msg_chat :: chat_id
  msg_text :: "jsstring option"

definition order_head :: jsstring where
  "order_head =
     [9888, 65039] @ js ''  The start time must be before the end time.'' @ [10, 10]"

definition arrow :: jsstring where
  "arrow =
     js '' '' @ [8594] @ js '' ''"

definition got_it :: jsstring where
  "got_it =
     [55356, 57263] @ js ''  Got it!'' @ [10, 10]"

definition clip_mark :: jsstring where
  "clip_mark =
     [55357, 56526] @ js ''  ''"

definition clock_mark :: jsstring where
  "clock_mark =
     [9201] @ js ''  ''"

definition audio_button :: jsstring where
  "audio_button =
     [55356, 57269] @ js '' Audio only''"

definition video_button :: jsstring where
  "video_button =
     [55356, 57260] @ js '' Video clip''"

definition need_timestamps_text :: jsstring where
  "need_timestamps_text =
     [55357, 56397] @ js ''  I see the YouTube link!'' @ [10, 10] @
     js ''Now please also include the **start** and **end** timestamps.'' @ [10, 10] @
     js ''Examples:'' @ [10, 8226] @ js '' '' @ [96] @ js ''from 1:20 to 2:45'' @
     [96, 10, 8226] @ js '' '' @ [96] @ js ''20.50 to 21.30'' @ [96, 10, 8226] @ js '' '' @
     [96] @ js ''0:00 to 0:30'' @ [96, 10, 10] @
     js ''You can include everything in one message, like:'' @ [10, 96] @
     js ''https://youtube.com/... from 1:20 to 2:45'' @ [96]"

definition need_url_text :: jsstring where
  "need_url_text =
     [55357, 56397] @ js ''  I see the timestamps!'' @ [10, 10] @
     js ''Please also include a **YouTube link** in your message.'' @ [10, 10] @
     js ''Example:'' @ [10, 96] @
     js ''https://youtube.com/watch?v=... from 1:20 to 2:45'' @ [96]"

definition help_text :: jsstring where
  "help_text =
     [55357, 56395] @ js ''  Hi! I'' @ [39] @ js ''m **ClipCut** '' @ [8212] @
     js '' I cut clips from YouTube videos.'' @ [10, 10] @ js ''**How to use me:**'' @
     [10] @ js ''Send a message with a YouTube link and the start/end times.'' @ [10, 10] @
     js ''**Examples:**'' @ [10, 8226] @ js '' '' @ [96] @
     js ''https://youtube.com/watch?v=abc from 1:20 to 2:45'' @ [96, 10, 8226] @ js '' '' @
     [96] @ js ''https://youtu.be/abc 20.50 to 21.30'' @ [96, 10, 8226] @ js '' '' @ [96] @
     js ''Please cut from 0:10 to 0:40 https://youtube.com/watch?v=abc'' @ [96, 10, 10] @
     js ''I'' @ [39] @ js ''ll then ask if you want '' @ [55356, 57269] @
     js '' audio or '' @ [55356, 57260] @ js '' video!''"

definition order_text :: "jsstring \<Rightarrow> jsstring \<Rightarrow> jsstring" where
  "order_text start end =
     order_head @ js ''You sent: '' @ start @ arrow @ end @ [10, 10] @ js ''Please try again.''"

definition prompt_text :: "jsstring \<Rightarrow> jsstring \<Rightarrow> jsstring \<Rightarrow> jsstring" where
  "prompt_text u start end =
     got_it @ clip_mark @ u @ [10] @ clock_mark @ start @ arrow @ end @ [10, 10] @
     js ''What format do you want?''"

definition format_keyboard :: keyboard where
  "format_keyboard =
     [[(audio_button, js ''format_audio''), (video_button, js ''format_video'')]]"

text \<open>\<^verbatim>\<open>url && ...\<close>: \<^verbatim>\<open>null\<close> and the empty string are falsy.\<close>

definition truthy :: "jsstring option \<Rightarrow> jsstring option" where
  "truthy x = (case x of None \<Rightarrow> None | Some s \<Rightarrow> if s = [] then None else Some s)"

text \<open>
  \<^verbatim>\<open>bot.on('message', ...)\<close>. The four cases of the source, in its order; in the first
  the order of the pair is validated before the request is stored.
\<close>

definition on_message :: "ieee \<Rightarrow> message \<Rightarrow> world \<Rightarrow> world" where
  "on_message fp msg w =
     (case truthy (msg_text msg) of
        None \<Rightarrow> w
      | Some raw \<Rightarrow>
          (let chatId = msg_chat msg;
               txt = trim raw;
               u0 = extractYouTubeUrl txt;
               ts0 = extractTimestamps fp txt
           in case (truthy u0, ts0) of
                (Some u, Some ts) \<Rightarrow>
                  if js_ge (toSeconds fp (startTime ts)) (toSeconds fp (endTime ts))
                  then send (SendMessage chatId (order_text (startTime ts) (endTime ts)) Plain) w
                  else send (SendMessage chatId (prompt_text u (startTime ts) (endTime ts))
                               (InlineKeyboard format_keyboard))
                         (w\<lparr>pendingRequests := (pendingRequests w)
                              (chatId \<mapsto> \<lparr>startTime = startTime ts, endTime = endTime ts,
                                           url = u\<rparr>)\<rparr>)
              | (Some u, None) \<Rightarrow> send (SendMessage chatId need_timestamps_text Markdown) w
              | (None, Some ts) \<Rightarrow> send (SendMessage chatId need_url_text Markdown) w
              | (None, None) \<Rightarrow> send (SendMessage chatId help_text Markdown) w))"

section \<open>The pipeline\<close>

text \<open>
  What the pipeline cannot decide is its environment: the random file identifier, the
  temporary directory, the message id that the transport gives the status message, what
  the two external tools do to the directory and whether they fail (with the text that
  \<^verbatim>\<open>runCommand\<close> puts after \<^verbatim>\<open>failed:\<close>), whether the upload throws (with its message),
  which files \<^verbatim>\<open>unlinkSync\<close> refuses to delete, whether \<^verbatim>\<open>readdirSync\<close> throws, and
  the arithmetic of doubles.
\<close>

record env =
  uid :: jsstring
  tmp_dir :: jsstring
  status_message_id :: message_id
  yt_dlp :: "jsstring list \<Rightarrow> directory \<Rightarrow> jsstring option \<times> directory"
  ffmpeg :: "jsstring list \<Rightarrow> directory \<Rightarrow> jsstring option \<times> directory"
  send_fails :: "action \<Rightarrow> jsstring option"
  unlink_fails :: "jsstring \<Rightarrow> bool"
  readdir_fails :: bool
  numbers :: ieee

record clip_call =
  c_chatId :: chat_id
  c_url :: jsstring
  c_startTime :: jsstring
  c_endTime :: jsstring
  c_mode :: jsstring
  c_statusMsgId :: message_id

definition TELEGRAM_FILE_LIMIT :: nat where
  "TELEGRAM_FILE_LIMIT = 50 * 1024 * 1024"

definition status_downloading :: jsstring where
  "status_downloading =
     [11015, 65039] @ js ''  Downloading from YouTube'' @ [8230]"

definition status_cutting :: jsstring where
  "status_cutting =
     [9986, 65039] @ js ''  Cutting your clip'' @ [8230]"

definition status_too_large :: jsstring where
  "status_too_large =
     [9888, 65039] @ js ''  The clip is too large to send via Telegram (> 50 MB).'' @
     [10] @ js ''Try a shorter segment or choose audio-only for a smaller file.''"

definition status_uploading :: jsstring where
  "status_uploading =
     [55357, 56548] @ js ''  Uploading your clip'' @ [8230]"

definition status_done :: jsstring where
  "status_done =
     [9989] @ js ''  Done! Enjoy your clip.''"

definition failed_prefix :: jsstring where
  "failed_prefix =
     [10060] @ js ''  Something went wrong while processing your clip.'' @ [10, 10]"

definition download_explanation :: jsstring where
  "download_explanation =
     js ''Could not download from YouTube. Please check that the link is valid and the video is publicly available.''"

definition cut_explanation :: jsstring where
  "cut_explanation =
     js ''Failed to cut the clip. The timestamps might be outside the video duration.''"

definition error_not_found :: jsstring where
  "error_not_found =
     js ''Download completed but file not found on disk.''"

definition error_empty :: jsstring where
  "error_empty =
     js ''Output file is empty '' @ [8212] @
     js '' the timestamps may be outside the video duration.''"

definition audio_caption_head :: jsstring where
  "audio_caption_head =
     [55356, 57269] @ js '' Audio clip (''"

definition video_caption_head :: jsstring where
  "video_caption_head =
     [55356, 57260] @ js '' Video clip (''"

definition video_format :: jsstring where
  "video_format =
     js ''bestvideo'' @ [91] @ js ''ext=mp4'' @ [93] @ js ''+bestaudio'' @ [91] @
     js ''ext=m4a'' @ [93] @ js ''/best'' @ [91] @ js ''ext=mp4'' @ [93] @ js ''/best''"

text \<open>\<^verbatim>\<open>path.join(TMP_DIR, name)\<close>. File names are single path components.\<close>

definition tmp_path :: "env \<Rightarrow> jsstring \<Rightarrow> jsstring" where
  "tmp_path e name = tmp_dir e @ [47] @ name"

definition existsSync :: "directory \<Rightarrow> jsstring \<Rightarrow> bool" where
  "existsSync d name \<longleftrightarrow> map_of d name \<noteq> None"

text \<open>
  \<^verbatim>\<open>path.extname\<close> of a file name: from the last dot to the end; empty when the name
  has no dot after its first character, and for the name \<^verbatim>\<open>..\<close>. \<open>base_name\<close> is
  \<^verbatim>\<open>path.basename(p, path.extname(p))\<close>, which strips that extension.
\<close>

definition extname :: "jsstring \<Rightarrow> jsstring" where
  "extname n =
     (if n \<noteq> [46, 46] \<and> 46 \<in> set (tl n) then 46 # rev (takeWhile (\<lambda>c. c \<noteq> 46) (rev n))
      else [])"

definition base_name :: "jsstring \<Rightarrow> jsstring" where
  "base_name n = take (length n - length (extname n)) n"

definition variants :: "jsstring list" where
  "variants = [js ''.mp4'', js ''.webm'', js ''.mkv'', js ''.m4a'', js ''.opus'', js ''.mp3'',
               js ''.ogg'']"

definition findDownloadedFile :: "directory \<Rightarrow> jsstring \<Rightarrow> jsstring option" where
  "findDownloadedFile d expected =
     (if existsSync d expected then Some expected
      else find (existsSync d) (map (\<lambda>ext. base_name expected @ ext) variants))"

text \<open>\<^verbatim>\<open>cleanupFile\<close>: an exception of \<^verbatim>\<open>unlinkSync\<close> is caught and ignored.\<close>

definition cleanupFile :: "env \<Rightarrow> jsstring \<Rightarrow> directory \<Rightarrow> directory" where
  "cleanupFile e name d =
     (if existsSync d name \<and> \<not> unlink_fails e name then filter (\<lambda>(n, _). n \<noteq> name) d else d)"

text \<open>\<^verbatim>\<open>.replace(/\.\*$/, '')\<close>: a trailing \<^verbatim>\<open>.*\<close> is removed.\<close>

definition strip_dot_star :: "jsstring \<Rightarrow> jsstring" where
  "strip_dot_star n =
     (if 2 \<le> length n \<and> drop (length n - 2) n = [46, 42] then take (length n - 2) n else n)"

text \<open>
  \<^verbatim>\<open>cleanupGlob\<close>: the names that \<^verbatim>\<open>readdirSync\<close> returns are visited in turn; an
  exception of \<^verbatim>\<open>readdirSync\<close> is caught and ignored.
\<close>

definition cleanupGlob :: "env \<Rightarrow> jsstring \<Rightarrow> directory \<Rightarrow> directory" where
  "cleanupGlob e pattern d =
     (let prefix = strip_dot_star pattern
      in if readdir_fails e then d
         else fold (\<lambda>file acc. if startsWith file prefix then cleanupFile e file acc else acc)
                (map fst d) d)"

definition updateStatus :: "clip_call \<Rightarrow> jsstring \<Rightarrow> world \<Rightarrow> world" where
  "updateStatus c t w = send (EditMessageText (c_chatId c) (c_statusMsgId c) t) w"

text \<open>
  \<^verbatim>\<open>runCommand\<close>: the tool changes the directory whether it fails or not; a failure
  rejects with the message \<^verbatim>\<open>`${cmd} failed: ${stderr || error.message}`\<close>.
\<close>

definition runCommand ::
  "(jsstring list \<Rightarrow> directory \<Rightarrow> jsstring option \<times> directory) \<Rightarrow> jsstring \<Rightarrow> jsstring list
     \<Rightarrow> world \<Rightarrow> jsstring option \<times> world" where
  "runCommand tool cmd args w =
     (let (failure, d) = tool args (files w);
          w1 = (send (RunCommand cmd args) w)\<lparr>files := d\<rparr>
      in (case failure of
            None \<Rightarrow> None
          | Some detail \<Rightarrow> Some (cmd @ js '' failed: '' @ detail), w1))"

definition isAudio :: "clip_call \<Rightarrow> bool" where
  "isAudio c \<longleftrightarrow> c_mode c = js ''audio''"

definition downloadName :: "env \<Rightarrow> clip_call \<Rightarrow> jsstring" where
  "downloadName e c = uid e @ js ''_raw.'' @ (if isAudio c then js ''webm'' else js ''mp4'')"

definition outputName :: "env \<Rightarrow> clip_call \<Rightarrow> jsstring" where
  "outputName e c = uid e @ js ''_clip.'' @ (if isAudio c then js ''mp3'' else js ''mp4'')"

definition ytdlpArgs :: "env \<Rightarrow> clip_call \<Rightarrow> jsstring list" where
  "ytdlpArgs e c =
     (if isAudio c
      then [js ''-f'', js ''bestaudio'', js ''-o'', tmp_path e (downloadName e c),
            js ''--no-playlist'', js ''--no-warnings'', c_url c]
      else [js ''-f'', video_format, js ''-o'', tmp_path e (downloadName e c),
            js ''--merge-output-format'', js ''mp4'', js ''--no-playlist'',
            js ''--no-warnings'', c_url c])"

definition ffmpegArgs :: "env \<Rightarrow> clip_call \<Rightarrow> jsstring \<Rightarrow> jsstring list" where
  "ffmpegArgs e c actualDownload =
     (let args0 = [js ''-y'', js ''-i'', tmp_path e actualDownload, js ''-ss'', c_startTime c,
                   js ''-to'', c_endTime c, js ''-c'', js ''copy''];
          args1 = (if isAudio c
                   then butlast (butlast args0) @
                        [js ''-vn'', js ''-acodec'', js ''libmp3lame'', js ''-ab'', js ''192k'']
                   else args0)
      in args1 @ [tmp_path e (outputName e c)])"

text \<open>How a run of the \<^verbatim>\<open>try\<close> block ends: an exception, the early \<^verbatim>\<open>return\<close>, or its end.\<close>

datatype completion = Threw jsstring | Returned | Completed

definition download_stage :: "env \<Rightarrow> clip_call \<Rightarrow> world \<Rightarrow> (jsstring + jsstring) \<times> world" where
  "download_stage e c w =
     (let w1 = updateStatus c status_downloading w;
          (failure, w2) = runCommand (yt_dlp e) (js ''yt-dlp'') (ytdlpArgs e c) w1
      in case failure of
           Some m \<Rightarrow> (Inl m, w2)
         | None \<Rightarrow>
             (case findDownloadedFile (files w2) (downloadName e c) of
                None \<Rightarrow> (Inl error_not_found, w2)
              | Some actualDownload \<Rightarrow> (Inr actualDownload, w2)))"

definition cut_stage :: "env \<Rightarrow> clip_call \<Rightarrow> jsstring \<Rightarrow> world \<Rightarrow> jsstring option \<times> world" where
  "cut_stage e c actualDownload w =
     (let w1 = updateStatus c status_cutting w
      in runCommand (ffmpeg e) (js ''ffmpeg'') (ffmpegArgs e c actualDownload) w1)"

text \<open>\<^verbatim>\<open>fs.statSync\<close> throws when the file does not exist.\<close>

definition statSync :: "env \<Rightarrow> directory \<Rightarrow> jsstring \<Rightarrow> jsstring + nat" where
  "statSync e d name =
     (case map_of d name of
        None \<Rightarrow> Inl (js ''ENOENT: no such file or directory, stat '' @ [39] @ tmp_path e name @ [39])
      | Some n \<Rightarrow> Inr n)"

definition caption :: "clip_call \<Rightarrow> jsstring" where
  "caption c =
     (if isAudio c then audio_caption_head else video_caption_head) @
     c_startTime c @ arrow @ c_endTime c @ js '')''"

definition upload_stage :: "env \<Rightarrow> clip_call \<Rightarrow> world \<Rightarrow> completion \<times> world" where
  "upload_stage e c w =
     (let w1 = updateStatus c status_uploading w;
          duration = js_sub (numbers e) (toSeconds (numbers e) (c_endTime c))
                       (toSeconds (numbers e) (c_startTime c));
          d = (if js_gt duration (Fin 0) then Some duration else None);
          a = (if isAudio c
               then SendAudio (c_chatId c) (tmp_path e (outputName e c)) (caption c) d
               else SendVideo (c_chatId c) (tmp_path e (outputName e c)) (caption c) d);
          w2 = send a w1
      in case send_fails e a of
           Some m \<Rightarrow> (Threw m, w2)
         | None \<Rightarrow> (Completed, updateStatus c status_done w2))"

definition size_check_stage :: "env \<Rightarrow> clip_call \<Rightarrow> world \<Rightarrow> completion \<times> world" where
  "size_check_stage e c w =
     (case statSync e (files w) (outputName e c) of
        Inl m \<Rightarrow> (Threw m, w)
      | Inr n \<Rightarrow>
          if n > TELEGRAM_FILE_LIMIT then (Returned, updateStatus c status_too_large w)
          else if n = 0 then (Threw error_empty, w)
          else upload_stage e c w)"

definition try_block :: "env \<Rightarrow> clip_call \<Rightarrow> world \<Rightarrow> completion \<times> world" where
  "try_block e c w =
     (case download_stage e c w of
        (Inl m, w1) \<Rightarrow> (Threw m, w1)
      | (Inr actualDownload, w1) \<Rightarrow>
          (case cut_stage e c actualDownload w1 of
             (Some m, w2) \<Rightarrow> (Threw m, w2)
           | (None, w2) \<Rightarrow> size_check_stage e c w2))"

definition userMessage :: "jsstring \<Rightarrow> jsstring" where
  "userMessage m =
     failed_prefix @
     (if js_includes m (js ''yt-dlp'') then download_explanation
      else if js_includes m (js ''ffmpeg'') then cut_explanation
      else js ''Error: '' @ m)"

definition catch_block :: "clip_call \<Rightarrow> completion \<times> world \<Rightarrow> world" where
  "catch_block c r =
     (case r of
        (Threw m, w) \<Rightarrow> updateStatus c (userMessage m) w
      | (_, w) \<Rightarrow> w)"

definition finally_block :: "env \<Rightarrow> clip_call \<Rightarrow> directory \<Rightarrow> directory" where
  "finally_block e c d =
     cleanupGlob e (uid e @ js ''_raw.*'')
       (cleanupFile e (outputName e c) (cleanupFile e (downloadName e c) d))"

definition processClip :: "env \<Rightarrow> clip_call \<Rightarrow> world \<Rightarrow> world" where
  "processClip e c w =
     (let w1 = catch_block c (try_block e c w)
      in w1\<lparr>files := finally_block e c (files w1)\<rparr>)"

subsection \<open>Format selection\<close>

record callback_query =
  query_id :: jsstring
  cb_chat :: chat_id
  cb_message_id :: message_id
  data :: "jsstring option"

definition no_pending_text :: jsstring where
  "no_pending_text =
     [9888, 65039] @ js ''  I don'' @ [39] @ js ''t have a pending request for you.'' @
     [10, 10] @ js ''Please send a YouTube link with timestamps first.''"

definition processing_text :: jsstring where
  "processing_text =
     [9203] @ js ''  Processing your clip'' @ [8230]"

text \<open>The mode that the pressed button stands for; nothing for any other callback data.\<close>

definition chosen_mode :: "callback_query \<Rightarrow> jsstring option" where
  "chosen_mode q =
     (if data q = Some (js ''format_audio'') then Some (js ''audio'')
      else if data q = Some (js ''format_video'') then Some (js ''video'')
      else None)"

text \<open>
  \<^verbatim>\<open>bot.on('callback_query', ...)\<close> up to its last statement, the call of
  \<^verbatim>\<open>processClip\<close>: the world at that point and the arguments of the call, if it is made.
\<close>

definition callback_dispatch :: "env \<Rightarrow> callback_query \<Rightarrow> world \<Rightarrow> world \<times> clip_call option" where
  "callback_dispatch e q w =
     (let chatId = cb_chat q;
          w1 = send (AnswerCallbackQuery (query_id q)) w
      in case pendingRequests w1 chatId of
           None \<Rightarrow> (send (SendMessage chatId no_pending_text Plain) w1, None)
         | Some request \<Rightarrow>
             (case chosen_mode q of
                None \<Rightarrow> (w1, None)
              | Some mode \<Rightarrow>
                  (let w2 = w1\<lparr>pendingRequests := (pendingRequests w1)(chatId := None)\<rparr>;
                       w3 = send (EditMessageReplyMarkup chatId (cb_message_id q) []) w2;
                       w4 = send (SendMessage chatId processing_text Plain) w3
                   in (w4, Some \<lparr>c_chatId = chatId, c_url = url request,
                                  c_startTime = startTime request, c_endTime = endTime request,
                                  c_mode = mode, c_statusMsgId = status_message_id e\<rparr>))))"

definition on_callback :: "env \<Rightarrow> callback_query \<Rightarrow> world \<Rightarrow> world" where
  "on_callback e q w =
     (case callback_dispatch e q w of
        (w1, None) \<Rightarrow> w1
      | (w1, Some c) \<Rightarrow> processClip e c w1)"

section \<open>Notions of the specification\<close>

text \<open>
  The definitions of this section are not taken from \<^verbatim>\<open>bot.js\<close>: they say, in the words
  of the specification, what the properties below compare the program with.
\<close>

text \<open>A number outside \<open>[0, 59]\<close>.\<close>

definition out_of_range :: "jsnum \<Rightarrow> bool" where
  "out_of_range x \<longleftrightarrow> js_lt x (Fin 0) \<or> js_gt x (Fin 59)"

text \<open>
  The groups of a raw timestamp read from right to left as seconds, then minutes, then
  hours: \<open>(hours, minutes, seconds)\<close>, with 0 for a field that has no group, and nothing
  when there are more than three groups.
\<close>

definition fields :: "ieee \<Rightarrow> jsstring \<Rightarrow> (jsnum \<times> jsnum \<times> jsnum) option" where
  "fields fp raw =
     (case rev (map (Number fp) (split_on is_sep (trim raw))) of
        [s] \<Rightarrow> Some (Fin 0, Fin 0, s)
      | [s, m] \<Rightarrow> Some (Fin 0, m, s)
      | [s, m, h] \<Rightarrow> Some (h, m, s)
      | _ \<Rightarrow> None)"

text \<open>A natural number in decimal, zero-padded to two digits.\<close>

definition two :: "nat \<Rightarrow> jsstring" where
  "two n = (if n < 10 then [48, 48 + n] else dec_digits n)"

text \<open>
  The canonical form \<^verbatim>\<open>HH:MM:SS\<close>: three fields of decimal digits separated by colons,
  two digits of minutes and of seconds, both at most 59, and two or more digits of hours.
\<close>

definition is_hhmmss :: "jsstring \<Rightarrow> bool" where
  "is_hhmmss x \<longleftrightarrow>
     (case split_on (\<lambda>c. c = 58) x of
        [h, m, s] \<Rightarrow>
          2 \<le> length h \<and> list_all is_digit h \<and>
          length m = 2 \<and> list_all is_digit m \<and> dec_value m \<le> 59 \<and>
          length s = 2 \<and> list_all is_digit s \<and> dec_value s \<le> 59
      | _ \<Rightarrow> False)"

text \<open>The same with exactly two digits of hours: eight code units.\<close>

definition valid_hhmmss :: "jsstring \<Rightarrow> bool" where
  "valid_hhmmss x \<longleftrightarrow>
     (case x of
        [h1, h2, c1, m1, m2, c2, s1, s2] \<Rightarrow>
          c1 = 58 \<and> c2 = 58 \<and> list_all is_digit [h1, h2, m1, m2, s1, s2] \<and>
          dec_value [m1, m2] \<le> 59 \<and> dec_value [s1, s2] \<le> 59
      | _ \<Rightarrow> False)"

subsection \<open>What a regular expression denotes\<close>

text \<open>
  The set of strings that a regular expression matches, by recursion on the expression:
  the meaning against which the backtracking matcher is checked.
\<close>

inductive_set star :: "jsstring set \<Rightarrow> jsstring set" for A :: "jsstring set" where
  star_empty: "[] \<in> star A"
| star_step: "u \<in> A \<Longrightarrow> v \<in> star A \<Longrightarrow> u @ v \<in> star A"

primrec lang :: "bool \<Rightarrow> re \<Rightarrow> jsstring set" where
  "lang i Eps = {[]}"
| "lang i (Lit c) = {[d] | d. lit_eq i c d}"
| "lang i (Cls p) = {[d] | d. p d}"
| "lang i (Seq a b) = {u @ v | u v. u \<in> lang i a \<and> v \<in> lang i b}"
| "lang i (Alt a b) = lang i a \<union> lang i b"
| "lang i (Opt a) = insert [] (lang i a)"
| "lang i (Star a) = star (lang i a)"

text \<open>The rests of \<open>s\<close> after a prefix in \<open>L\<close>; \<open>L\<close> occurs in \<open>s\<close> as a substring.\<close>

definition rests :: "jsstring set \<Rightarrow> jsstring \<Rightarrow> jsstring set" where
  "rests L s = {t. \<exists>u \<in> L. s = u @ t}"

definition occurs :: "jsstring set \<Rightarrow> jsstring \<Rightarrow> bool" where
  "occurs L s \<longleftrightarrow> (\<exists>pre u post. s = pre @ u @ post \<and> u \<in> L)"

text \<open>
  No member of \<open>L\<close> starts in \<open>s\<close> before the end of the prefix \<open>pre\<close>: a match that
  follows \<open>pre\<close> is a first one.
\<close>

definition leftmost :: "jsstring set \<Rightarrow> jsstring \<Rightarrow> jsstring \<Rightarrow> bool" where
  "leftmost L pre s \<longleftrightarrow>
     (\<forall>pre' u' post'. s = pre' @ u' @ post' \<and> u' \<in> L \<longrightarrow> length pre \<le> length pre')"

text \<open>The strings made of a member of \<open>A\<close> followed by a member of \<open>B\<close>.\<close>

definition conc :: "jsstring set \<Rightarrow> jsstring set \<Rightarrow> jsstring set" where
  "conc A B = {u @ v | u v. u \<in> A \<and> v \<in> B}"

text \<open>
  The upper case of the letters \<^verbatim>\<open>a\<close> to \<^verbatim>\<open>z\<close>, and the strings that spell \<open>cs\<close> when the
  case of these letters is ignored.
\<close>

definition upper :: "jschar \<Rightarrow> jschar" where
  "upper c = (if 97 \<le> c \<and> c \<le> 122 then c - 32 else c)"

definition any_case :: "string \<Rightarrow> jsstring set" where
  "any_case cs = {t. map upper t = map upper (js cs)}"

definition no_space :: "jsstring \<Rightarrow> bool" where
  "no_space x \<longleftrightarrow> list_all (\<lambda>c. \<not> is_space c) x"

text \<open>The optional scheme and the optional \<^verbatim>\<open>www.\<close> of a URL.\<close>

definition url_schemes :: "jsstring set" where
  "url_schemes = {[]} \<union> any_case ''http://'' \<union> any_case ''https://''"

definition url_www :: "jsstring set" where
  "url_www = {[]} \<union> any_case ''www.''"

text \<open>
  The known URL shapes \<^verbatim>\<open>youtube.com/watch?v=X\<close>, \<^verbatim>\<open>youtu.be/X\<close>,
  \<^verbatim>\<open>youtube.com/shorts/X\<close> and \<^verbatim>\<open>youtube.com/live/X\<close>, with or without the scheme and with
  or without \<^verbatim>\<open>www.\<close>. \<open>url_sites\<close> is the part of a shape before \<open>X\<close>; a video
  identifier \<open>X\<close> is not empty, has no white space, and does not begin with \<^verbatim>\<open>?\<close> or
  \<^verbatim>\<open>&\<close>.
\<close>

definition url_sites :: "jsstring set" where
  "url_sites =
     any_case ''youtube.com/watch?v='' \<union> any_case ''youtu.be/'' \<union>
     any_case ''youtube.com/shorts/'' \<union> any_case ''youtube.com/live/''"

definition video_id :: "jsstring \<Rightarrow> bool" where
  "video_id x \<longleftrightarrow> x \<noteq> [] \<and> no_space x \<and> hd x \<noteq> 63 \<and> hd x \<noteq> 38"

definition url_shapes :: "jsstring set" where
  "url_shapes = conc url_schemes (conc url_www (conc url_sites {x. video_id x}))"

text \<open>
  The URLs that \<^verbatim>\<open>extractYouTubeUrl\<close> accepts, described without the regular expression.
  After the optional scheme and \<^verbatim>\<open>www.\<close> comes either \<^verbatim>\<open>youtube.com/watch?\<close>, any run
  without white space, \<^verbatim>\<open>v=\<close> and a rest that does not begin with \<^verbatim>\<open>&\<close>, or one of
  \<^verbatim>\<open>youtu.be/\<close>, \<^verbatim>\<open>youtube.com/shorts/\<close> and \<^verbatim>\<open>youtube.com/live/\<close> and a rest that does
  not begin with \<^verbatim>\<open>?\<close>. The rest is not empty and has no white space. Letters are
  compared without regard to case.
\<close>

definition url_rest :: "jschar \<Rightarrow> jsstring set" where
  "url_rest c = {x. x \<noteq> [] \<and> no_space x \<and> hd x \<noteq> c}"

definition watch_sites :: "jsstring set" where
  "watch_sites =
     conc (any_case ''youtube.com/watch?'') (conc {q. no_space q} (any_case ''v=''))"

definition path_sites :: "jsstring set" where
  "path_sites =
     any_case ''youtu.be/'' \<union> any_case ''youtube.com/shorts/'' \<union> any_case ''youtube.com/live/''"

definition accepted_urls :: "jsstring set" where
  "accepted_urls =
     conc url_schemes
       (conc url_www (conc watch_sites (url_rest 38) \<union> conc path_sites (url_rest 63)))"

text \<open>
  A candidate timestamp: one or two digits, then one or two further groups of one or two
  digits, each after a \<^verbatim>\<open>:\<close> or a \<^verbatim>\<open>.\<close>.
\<close>

definition digit_group :: "jsstring \<Rightarrow> bool" where
  "digit_group g \<longleftrightarrow> (length g = 1 \<or> length g = 2) \<and> list_all is_digit g"

definition is_candidate :: "jsstring \<Rightarrow> bool" where
  "is_candidate u \<longleftrightarrow>
     (case split_on is_sep u of
        [a, b] \<Rightarrow> digit_group a \<and> digit_group b
      | [a, b, c] \<Rightarrow> digit_group a \<and> digit_group b \<and> digit_group c
      | _ \<Rightarrow> False)"

definition candidates :: "jsstring set" where
  "candidates = {u. is_candidate u}"

text \<open>
  The member \<open>m\<close> of \<open>L\<close> is the longest one at its place in \<open>m @ post\<close>: no member of
  \<open>L\<close> that starts where \<open>m\<close> starts is longer.
\<close>

definition longest :: "jsstring set \<Rightarrow> jsstring \<Rightarrow> jsstring \<Rightarrow> bool" where
  "longest L m post \<longleftrightarrow>
     (\<forall>m' post'. m' \<in> L \<and> m' @ post' = m @ post \<longrightarrow> length m' \<le> length m)"

text \<open>
  Scanning a text from left to right for the members of \<open>L\<close>: each one found is a first
  one in what is left of the text and the longest one at its place, and the scan resumes
  after it.
\<close>

inductive scans :: "jsstring set \<Rightarrow> jsstring \<Rightarrow> jsstring list \<Rightarrow> bool" for L :: "jsstring set" where
  scans_none: "\<not> occurs L s \<Longrightarrow> scans L s []"
| scans_match: "m \<in> L \<Longrightarrow> leftmost L pre (pre @ m @ post) \<Longrightarrow> longest L m post \<Longrightarrow>
     scans L post ms \<Longrightarrow> scans L (pre @ m @ post) (m # ms)"

subsection \<open>The store and the pipeline\<close>

text \<open>
  The canonical timestamp of \<open>h\<close> hours, \<open>m\<close> minutes and \<open>s\<close> seconds, two decimal
  digits each.
\<close>

definition clock :: "nat \<Rightarrow> nat \<Rightarrow> nat \<Rightarrow> jsstring" where
  "clock h m s =
     [48 + h div 10, 48 + h mod 10, 58, 48 + m div 10, 48 + m mod 10, 58,
      48 + s div 10, 48 + s mod 10]"

text \<open>
  A pending request whose start is before its end: as \<^verbatim>\<open>toSeconds\<close> compares them, and
  as canonical timestamps compared by their hours, minutes and seconds.
\<close>

definition ordered :: "ieee \<Rightarrow> pending_request \<Rightarrow> bool" where
  "ordered fp r \<longleftrightarrow> js_lt (toSeconds fp (startTime r)) (toSeconds fp (endTime r))"

definition starts_before :: "pending_request \<Rightarrow> bool" where
  "starts_before r \<longleftrightarrow>
     (\<exists>h m s h' m' s'. h < 100 \<and> m \<le> 59 \<and> s \<le> 59 \<and> h' < 100 \<and> m' \<le> 59 \<and> s' \<le> 59 \<and>
        startTime r = clock h m s \<and> endTime r = clock h' m' s' \<and>
        h * 3600 + m * 60 + s < h' * 3600 + m' * 60 + s')"

definition store_ok :: "ieee \<Rightarrow> world \<Rightarrow> bool" where
  "store_ok fp w \<longleftrightarrow>
     (\<forall>c r. pendingRequests w c = Some r \<longrightarrow> ordered fp r \<and> starts_before r)"

text \<open>
  The worlds that the program can be in: it starts with an empty store, and every event
  is a text message or a callback query.
\<close>

inductive reachable :: "ieee \<Rightarrow> world \<Rightarrow> bool" for fp :: ieee where
  start: "pendingRequests w = Map.empty \<Longrightarrow> reachable fp w"
| message: "reachable fp w \<Longrightarrow> reachable fp (on_message fp msg w)"
| callback: "reachable fp w \<Longrightarrow> reachable fp (on_callback e q w)"

text \<open>The edit of the status message of a pipeline run.\<close>

definition edit :: "clip_call \<Rightarrow> jsstring \<Rightarrow> action" where
  "edit c t = EditMessageText (c_chatId c) (c_statusMsgId c) t"

text \<open>A file that shares the base name of the download, with any extension.\<close>

definition variant_name :: "env \<Rightarrow> jsstring \<Rightarrow> bool" where
  "variant_name e n \<longleftrightarrow> (\<exists>ext. n = uid e @ js ''_raw.'' @ ext)"

definition names :: "world \<Rightarrow> jsstring set" where
  "names w = fst ` set (files w)"

subsection \<open>Sample data for the closed examples\<close>

text \<open>
  A runtime for the closed examples. None of them reaches a number that is not a small
  integer or an infinity, so none of them consults it.
\<close>

definition sample_ieee :: ieee where
  "sample_ieee = \<lparr>round_inexact = Fin, show_inexact = (\<lambda>q. [])\<rparr>"

definition sample_uid :: jsstring where
  "sample_uid = js ''a1b2c3d4e5f6''"

text \<open>
  The download tool leaves its file under the extension \<^verbatim>\<open>.mkv\<close>, the trim tool writes an
  output of \<open>n\<close> bytes, the upload succeeds and every file can be deleted.
\<close>

definition sample_env :: "nat \<Rightarrow> env" where
  "sample_env n =
     \<lparr>uid = sample_uid, tmp_dir = js ''/tmp/clipcut'', status_message_id = 7,
      yt_dlp = (\<lambda>args d. (None, (sample_uid @ js ''_raw.mkv'', 1000) # d)),
      ffmpeg = (\<lambda>args d. (None, (sample_uid @ js ''_clip.mp3'', n) # d)),
      send_fails = (\<lambda>a. None), unlink_fails = (\<lambda>name. False), readdir_fails = False,
      numbers = sample_ieee\<rparr>"

text \<open>The download tool exits with an error.\<close>

definition failing_env :: env where
  "failing_env = (sample_env 500)\<lparr>yt_dlp := (\<lambda>args d. (Some (js ''ERROR: Video unavailable''), d))\<rparr>"

text \<open>The download tool exits without an error and leaves no file.\<close>

definition silent_env :: env where
  "silent_env = (sample_env 500)\<lparr>yt_dlp := (\<lambda>args d. (None, d))\<rparr>"

text \<open>The downloaded file cannot be deleted.\<close>

definition locked_env :: env where
  "locked_env = (sample_env 500)\<lparr>unlink_fails := (\<lambda>name. name = sample_uid @ js ''_raw.mkv'')\<rparr>"

definition sample_call :: clip_call where
  "sample_call =
     \<lparr>c_chatId = 5, c_url = js ''https://youtu.be/abc123'', c_startTime = js ''00:00:10'',
      c_endTime = js ''00:00:30'', c_mode = js ''audio'', c_statusMsgId = 7\<rparr>"

definition sample_world :: world where
  "sample_world = \<lparr>pendingRequests = Map.empty, files = [(js ''other.txt'', 3)], outbox = []\<rparr>"

definition sample_request :: pending_request where
  "sample_request =
     \<lparr>startTime = js ''00:00:10'', endTime = js ''00:00:30'', url = js ''https://youtu.be/abc123''\<rparr>"

definition pending_world :: world where
  "pending_world = sample_world\<lparr>pendingRequests := [5 \<mapsto> sample_request]\<rparr>"

definition sample_message :: message where
  "sample_message =
     \<lparr>msg_chat = 5, msg_text = Some (js ''https://youtu.be/abc123 from 0:10 to 0:30'')\<rparr>"

definition reversed_message :: message where
  "reversed_message =
     \<lparr>msg_chat = 5, msg_text = Some (js ''https://youtu.be/abc123 from 0:30 to 0:10'')\<rparr>"


definition other_query :: callback_query where
  "other_query = \<lparr>query_id = js ''q2'', cb_chat = 5, cb_message_id = 3,
                   data = Some (js ''something_else'')\<rparr>"

section \<open>Properties of the timestamp parser\<close>

subsection \<open>Substrings\<close>

lemma startsWith_append: "startsWith (p @ s) p"
  by (induction p) auto

lemma js_includes_prefix: "js_includes (p @ s) p"
  by (cases "p @ s") (auto simp: startsWith_append, metis startsWith_append)

lemma js_includes_middle: "js_includes (a @ t @ b) t"
proof (induction a)
  case Nil
  show ?case using js_includes_prefix [of t b] by simp
next
  case (Cons x a)
  then show ?case by simp
qed

subsection \<open>Digits, numbers and padding\<close>

lemma digit_not_space: "is_digit c \<Longrightarrow> \<not> is_space c"
  by (auto simp: is_digit_def is_space_def)

lemma digit_not_sep: "is_digit c \<Longrightarrow> \<not> is_sep c"
  by (auto simp: is_digit_def is_sep_def)

lemma trim_id: "s \<noteq> [] \<Longrightarrow> \<not> is_space (hd s) \<Longrightarrow> \<not> is_space (last s) \<Longrightarrow> trim s = s"
proof -
  assume a: "s \<noteq> []" "\<not> is_space (hd s)" "\<not> is_space (last s)"
  then have 1: "dropWhile is_space s = s" by (cases s) auto
  from a have "rev s \<noteq> []" "\<not> is_space (hd (rev s))" by (auto simp: hd_rev)
  then have 2: "dropWhile is_space (rev s) = rev s" by (cases "rev s") auto
  show ?thesis by (simp add: trim_def 1 2)
qed

lemma trim_digits: "ds \<noteq> [] \<Longrightarrow> list_all is_digit ds \<Longrightarrow> trim ds = ds"
  by (rule trim_id) (auto simp: list_all_iff digit_not_space)

lemma takeWhile_digits: "list_all is_digit ds \<Longrightarrow> takeWhile is_digit ds = ds"
  by (simp add: list_all_iff)

lemma dropWhile_digits: "list_all is_digit ds \<Longrightarrow> dropWhile is_digit ds = []"
  by (simp add: list_all_iff)

lemma non_decimal_digits: "list_all is_digit ds \<Longrightarrow> non_decimal ds = None"
  by (auto simp: non_decimal_def is_digit_def split: list.splits)

lemma unsigned_decimal_digits:
  assumes "ds \<noteq> []" "list_all is_digit ds"
  shows "unsigned_decimal ds = Exact (of_nat (dec_value ds))"
proof -
  from assms have "is_digit (hd ds)" by (cases ds) auto
  then have "hd ds \<noteq> 73" by (auto simp: is_digit_def)
  then have "ds \<noteq> js ''Infinity''" by (auto simp: js_def)
  with assms show ?thesis
    by (simp add: unsigned_decimal_def takeWhile_digits dropWhile_digits exponent_part_def
        scale10_def)
qed

lemma literal_value_digits:
  assumes "ds \<noteq> []" "list_all is_digit ds"
  shows "literal_value ds = Exact (of_nat (dec_value ds))"
proof -
  from assms obtain c cs where ds: "ds = c # cs" and c: "is_digit c" by (cases ds) auto
  from c have "c \<noteq> 43" "c \<noteq> 45" by (auto simp: is_digit_def)
  have "trim ds = c # cs" using assms ds by (simp add: trim_digits)
  moreover have "non_decimal (c # cs) = None" using assms ds by (simp add: non_decimal_digits)
  moreover have "unsigned_decimal (c # cs) = Exact (of_nat (dec_value ds))"
    using assms ds unsigned_decimal_digits by blast
  ultimately show ?thesis
    using \<open>c \<noteq> 43\<close> \<open>c \<noteq> 45\<close> by (simp add: literal_value_def)
qed

lemma safe_integer_of_nat: "safe_integer (of_nat n) \<longleftrightarrow> n \<le> 9007199254740992"
proof -
  have "(of_nat n :: rat) \<le> 9007199254740992 \<longleftrightarrow> n \<le> 9007199254740992"
    using of_nat_le_iff [of n 9007199254740992, where ?'a = rat] by simp
  then show ?thesis by (simp add: safe_integer_def)
qed

lemma Number_digits:
  assumes "ds \<noteq> []" "list_all is_digit ds" "dec_value ds \<le> 9007199254740992"
  shows "Number fp ds = Fin (of_nat (dec_value ds))"
  using assms by (simp add: Number_def literal_value_digits js_round_def safe_integer_of_nat)

lemma dec_value_snoc: "dec_value (ds @ [c]) = 10 * dec_value ds + (c - 48)"
  by (simp add: dec_value_def)

lemma dec_value_bound: "list_all is_digit ds \<Longrightarrow> dec_value ds < 10 ^ length ds"
proof (induction ds rule: rev_induct)
  case Nil
  then show ?case by (simp add: dec_value_def)
next
  case (snoc c ds)
  then have "dec_value ds < 10 ^ length ds" "c - 48 \<le> 9"
    by (auto simp: is_digit_def)
  then show ?case by (simp add: dec_value_snoc)
qed

lemma Number_digits15:
  assumes "ds \<noteq> []" "list_all is_digit ds" "length ds \<le> 15"
  shows "Number fp ds = Fin (of_nat (dec_value ds))"
proof -
  have "dec_value ds < 10 ^ length ds" using assms by (simp add: dec_value_bound)
  also have "(10::nat) ^ length ds \<le> 10 ^ 15" using assms by (intro power_increasing) auto
  finally have "dec_value ds \<le> 9007199254740992" by simp
  with assms show ?thesis by (simp add: Number_digits)
qed

lemma dec_digits_digits: "list_all is_digit (dec_digits n)"
proof (induction n rule: dec_digits.induct)
  case (1 n)
  show ?case
  proof (cases "n < 10")
    case True
    then show ?thesis by (subst dec_digits.simps) (simp add: is_digit_def)
  next
    case False
    have "n mod 10 < 10" by simp
    then have "is_digit (48 + n mod 10)" unfolding is_digit_def by linarith
    with False 1 show ?thesis by (subst dec_digits.simps) simp
  qed
qed

lemma dec_value_dec_digits: "dec_value (dec_digits n) = n"
proof (induction n rule: dec_digits.induct)
  case (1 n)
  show ?case
  proof (cases "n < 10")
    case True
    then show ?thesis by (subst dec_digits.simps) (simp add: dec_value_def)
  next
    case False
    with 1 show ?thesis by (subst dec_digits.simps) (simp add: dec_value_snoc)
  qed
qed

lemma dec_digits_length: "10 \<le> n \<Longrightarrow> 2 \<le> length (dec_digits n)"
proof -
  assume a: "10 \<le> n"
  have "dec_digits (n div 10) \<noteq> []" by (subst dec_digits.simps) simp
  then have "1 \<le> length (dec_digits (n div 10))" by (cases "dec_digits (n div 10)") auto
  with a show ?thesis by (subst dec_digits.simps) simp
qed

lemma dec_digits_two: "10 \<le> n \<Longrightarrow> n < 100 \<Longrightarrow> dec_digits n = [48 + n div 10, 48 + n mod 10]"
proof -
  assume a: "10 \<le> n" "n < 100"
  then have "n div 10 < 10" by simp
  then have "dec_digits (n div 10) = [48 + n div 10]" by (subst dec_digits.simps) simp
  with a show ?thesis by (subst dec_digits.simps) simp
qed

lemma two_digits: "list_all is_digit (two n)"
  by (simp add: two_def dec_digits_digits is_digit_def)

lemma two_length: "2 \<le> length (two n)"
  by (simp add: two_def dec_digits_length)

lemma two_length_small: "n < 100 \<Longrightarrow> length (two n) = 2"
  by (simp add: two_def dec_digits_two)

lemma dec_value_two: "dec_value (two n) = n"
  by (simp add: two_def dec_value_dec_digits) (simp add: dec_value_def)

lemma pad_of_nat: "n \<le> 9007199254740992 \<Longrightarrow> pad fp (Fin (of_nat n)) = two n"
proof -
  assume a: "n \<le> 9007199254740992"
  have d: "dec_digits n \<noteq> []" by (subst dec_digits.simps) simp
  show ?thesis
  proof (cases "n < 10")
    case True
    then have "dec_digits n = [48 + n]" by (subst dec_digits.simps) simp
    with a True show ?thesis
      by (simp add: pad_def padStart_def String_of_def safe_integer_of_nat two_def)
  next
    case False
    then have "2 \<le> length (dec_digits n)" by (simp add: dec_digits_length)
    with a False show ?thesis
      by (simp add: pad_def padStart_def String_of_def safe_integer_of_nat two_def)
  qed
qed

lemma split_on_none: "\<not> list_ex p g \<Longrightarrow> split_on p g = [g]"
  by (induction g) auto

lemma split_on_append:
  "\<not> list_ex p g \<Longrightarrow> p c \<Longrightarrow> split_on p (g @ c # rest) = g # split_on p rest"
  by (induction g) auto

lemma split_on_nonempty: "split_on p s \<noteq> []"
  by (induction s) (auto split: list.splits)

lemmas eval_defs = normaliseTimestamp_def sanity_and_format_def pad_def padStart_def String_of_def
  is_sep_def isNaN_def js_gt_def  Number_def literal_value_def unsigned_decimal_def non_decimal_def exponent_part_def
  scale10_def mv_neg_def radix_value_def hex_digit_def dec_value_def js_round_def safe_integer_def
  trim_def is_space_def is_digit_def js_def dec_digits.simps

lemma nt_nan:
  "list_ex isNaN (map (Number fp) (split_on is_sep (trim raw))) \<Longrightarrow> normaliseTimestamp fp raw = None"
  by (simp add: normaliseTimestamp_def)

lemma nt_many:
  "3 < length (split_on is_sep (trim raw)) \<Longrightarrow> normaliseTimestamp fp raw = None"
  by (auto simp: normaliseTimestamp_def Let_def split: list.splits)

lemma rev_eq_singleton: "rev xs = [a] \<longleftrightarrow> xs = [a]"
  by (metis rev.simps rev_rev_ident append_Nil)

lemma rev_eq_two: "rev xs = [a, b] \<longleftrightarrow> xs = [b, a]"
  by (metis rev.simps rev_rev_ident append_Nil append_Cons)

lemma rev_eq_three: "rev xs = [a, b, c] \<longleftrightarrow> xs = [c, b, a]"
  by (metis rev.simps rev_rev_ident append_Nil append_Cons)

lemma fields_cases:
  assumes "fields fp raw = Some (h, m, s)"
  shows "normaliseTimestamp fp raw =
           (if isNaN h \<or> isNaN m \<or> isNaN s then None else sanity_and_format fp h m s)"
proof -
  let ?ps = "map (Number fp) (split_on is_sep (trim raw))"
  from assms consider "?ps = [s]" "h = Fin 0" "m = Fin 0" | "?ps = [m, s]" "h = Fin 0" | "?ps = [h, m, s]"
    unfolding fields_def
    by (auto split: list.splits simp: rev_eq_singleton rev_eq_two rev_eq_three)
  then show ?thesis
  proof cases
    case 1
    then show ?thesis by (simp add: normaliseTimestamp_def isNaN_def)
  next
    case 2
    then show ?thesis by (simp add: normaliseTimestamp_def isNaN_def)
  next
    case 3
    then show ?thesis by (simp add: normaliseTimestamp_def isNaN_def)
  qed
qed

lemma nt_range:
  assumes "fields fp raw = Some (h, m, s)" "out_of_range m \<or> out_of_range s \<or> js_lt h (Fin 0)"
  shows "normaliseTimestamp fp raw = None"
  using assms(2) by (auto simp: fields_cases [OF assms(1)] sanity_and_format_def out_of_range_def)

lemma is_hhmmss_two:
  assumes "m \<le> 59" "s \<le> 59"
  shows "is_hhmmss (two h @ [58] @ two m @ [58] @ two s)"
proof -
  have nd: "\<not> list_ex (\<lambda>c. c = 58) (two n)" for n
    using two_digits [of n] by (auto simp: list_all_iff list_ex_iff is_digit_def)
  have "split_on (\<lambda>c. c = 58) (two h @ 58 # two m @ 58 # two s) = [two h, two m, two s]"
    by (simp add: split_on_append split_on_none nd)
  with assms show ?thesis
    by (simp add: is_hhmmss_def two_digits two_length two_length_small dec_value_two)
qed

lemma nt_ok:
  assumes "fields fp raw = Some (Fin (of_nat h), Fin (of_nat m), Fin (of_nat s))"
    and "h \<le> 9007199254740992" "m \<le> 59" "s \<le> 59"
  shows "normaliseTimestamp fp raw = Some (two h @ [58] @ two m @ [58] @ two s)"
  using assms(2-)
  by (simp add: fields_cases [OF assms(1)] sanity_and_format_def isNaN_def js_gt_def pad_of_nat)

lemma valid_hhmmss_roundtrip:
  assumes "valid_hhmmss x"
  shows "normaliseTimestamp fp x = Some x"
proof -
  from assms obtain h1 h2 m1 m2 s1 s2 where x: "x = [h1, h2, 58, m1, m2, 58, s1, s2]"
    and d: "is_digit h1" "is_digit h2" "is_digit m1" "is_digit m2" "is_digit s1" "is_digit s2"
    and r: "dec_value [m1, m2] \<le> 59" "dec_value [s1, s2] \<le> 59"
    unfolding valid_hhmmss_def by (auto split: list.splits)
  have t: "trim x = x" unfolding x by (rule trim_id) (use d in \<open>auto simp: digit_not_space\<close>)
  have sp: "split_on is_sep x = [[h1, h2], [m1, m2], [s1, s2]]"
    using d by (simp add: x digit_not_sep) (simp add: is_sep_def)
  have num: "Number fp [a, b] = Fin (of_nat (dec_value [a, b]))" if "is_digit a" "is_digit b" for a b
    using that by (intro Number_digits15) auto
  have tw: "two (dec_value [a, b]) = [a, b]" if "is_digit a" "is_digit b" for a b
  proof -
    define p q where "p = a - 48" and "q = b - 48"
    with that have pq: "a = 48 + p" "b = 48 + q" "p < 10" "q < 10"
      by (auto simp: is_digit_def)
    then have v: "dec_value [a, b] = 10 * p + q" by (simp add: dec_value_def)
    show ?thesis
    proof (cases "p = 0")
      case True
      with pq v show ?thesis by (simp add: two_def)
    next
      case False
      with pq have "10 \<le> 10 * p + q" "10 * p + q < 100" "(10 * p + q) div 10 = p"
        "(10 * p + q) mod 10 = q" by auto
      with pq v show ?thesis by (simp add: two_def dec_digits_two)
    qed
  qed
  have b: "dec_value [a, b] \<le> 9007199254740992" if "is_digit a" "is_digit b" for a b
    using that by (auto simp: dec_value_def is_digit_def)
  have f: "fields fp x = Some (Fin (of_nat (dec_value [h1, h2])), Fin (of_nat (dec_value [m1, m2])),
      Fin (of_nat (dec_value [s1, s2])))"
    by (simp add: fields_def t sp num d)
  show ?thesis
    using nt_ok [OF f b [OF d(1,2)] r] by (simp add: tw d x)
qed

subsection \<open>Claims about \<^verbatim>\<open>normaliseTimestamp\<close>\<close>

lemma nt_examples:
  "normaliseTimestamp fp (js ''20.50'') = Some (js ''00:20:50'')"
  "normaliseTimestamp fp (js ''1:02:15'') = Some (js ''01:02:15'')"
  "normaliseTimestamp fp (js ''5'') = Some (js ''00:00:05'')"
  "normaliseTimestamp fp (js ''60:00'') = None"
  "normaliseTimestamp fp (js ''1:2:3:4'') = None"
  by (simp_all add: eval_defs)

text \<open>
  C4, amended. \<^verbatim>\<open>normaliseTimestamp\<close> splits its trimmed input on \<^verbatim>\<open>:\<close> or \<^verbatim>\<open>.\<close> into
  groups, read from right to left as seconds, minutes and hours. It returns \<^verbatim>\<open>null\<close> when
  \<^verbatim>\<open>Number\<close> makes NaN of a group, when there are more than three groups, when minutes or
  seconds are outside \<open>[0, 59]\<close> and when hours are negative. Otherwise, when hours,
  minutes and seconds are natural numbers and hours are at most \<open>2^53\<close>, it returns them
  zero-padded to two digits and joined by colons, which is of the form \<^verbatim>\<open>HH:MM:SS\<close>; every
  group of one to fifteen decimal digits is such a number. The five examples of the
  specification hold.
\<close>

theorem normaliseTimestamp_contract:
  "((\<exists>g \<in> set (split_on is_sep (trim raw)). isNaN (Number fp g)) \<longrightarrow>
      normaliseTimestamp fp raw = None) \<and>
   (3 < length (split_on is_sep (trim raw)) \<longrightarrow> normaliseTimestamp fp raw = None) \<and>
   (\<forall>h m s. fields fp raw = Some (h, m, s) \<and>
        (out_of_range m \<or> out_of_range s \<or> js_lt h (Fin 0)) \<longrightarrow>
      normaliseTimestamp fp raw = None) \<and>
   (\<forall>h m s. fields fp raw = Some (Fin (of_nat h), Fin (of_nat m), Fin (of_nat s)) \<and>
        h \<le> 2 ^ 53 \<and> m \<le> 59 \<and> s \<le> 59 \<longrightarrow>
      normaliseTimestamp fp raw = Some (two h @ [58] @ two m @ [58] @ two s) \<and>
      is_hhmmss (two h @ [58] @ two m @ [58] @ two s)) \<and>
   (\<forall>g. g \<noteq> [] \<and> list_all is_digit g \<and> length g \<le> 15 \<longrightarrow>
      Number fp g = Fin (of_nat (dec_value g))) \<and>
   normaliseTimestamp fp (js ''20.50'') = Some (js ''00:20:50'') \<and>
   normaliseTimestamp fp (js ''1:02:15'') = Some (js ''01:02:15'') \<and>
   normaliseTimestamp fp (js ''5'') = Some (js ''00:00:05'') \<and>
   normaliseTimestamp fp (js ''60:00'') = None \<and>
   normaliseTimestamp fp (js ''1:2:3:4'') = None"
proof -
  have a: "(\<exists>g \<in> set (split_on is_sep (trim raw)). isNaN (Number fp g)) \<longrightarrow>
      normaliseTimestamp fp raw = None"
    using nt_nan [of fp raw] by (auto simp: list_ex_iff)
  have b: "3 < length (split_on is_sep (trim raw)) \<longrightarrow> normaliseTimestamp fp raw = None"
    using nt_many [of raw fp] by simp
  have c: "\<forall>h m s. fields fp raw = Some (h, m, s) \<and>
        (out_of_range m \<or> out_of_range s \<or> js_lt h (Fin 0)) \<longrightarrow>
      normaliseTimestamp fp raw = None"
    using nt_range [of fp raw] by blast
  have d: "\<forall>h m s. fields fp raw = Some (Fin (of_nat h), Fin (of_nat m), Fin (of_nat s)) \<and>
        h \<le> 2 ^ 53 \<and> m \<le> 59 \<and> s \<le> 59 \<longrightarrow>
      normaliseTimestamp fp raw = Some (two h @ [58] @ two m @ [58] @ two s) \<and>
      is_hhmmss (two h @ [58] @ two m @ [58] @ two s)"
    using nt_ok [of fp raw] is_hhmmss_two by simp
  have e: "\<forall>g. g \<noteq> [] \<and> list_all is_digit g \<and> length g \<le> 15 \<longrightarrow>
      Number fp g = Fin (of_nat (dec_value g))"
    using Number_digits15 [of _ fp] by blast
  from a b c d e nt_examples [of fp] show ?thesis by blast
qed

theorem normaliseTimestamp_contract_witness:
  "normaliseTimestamp sample_ieee (js ''1:xx'') = None \<and>
   normaliseTimestamp sample_ieee (js ''1:2:3:4:5'') = None \<and>
   normaliseTimestamp sample_ieee (js ''75:00'') = None \<and>
   normaliseTimestamp sample_ieee (js ''7:08:09'') = Some (js ''07:08:09'') \<and>
   is_hhmmss (js ''07:08:09'') \<and>
   Number sample_ieee (js ''15'') = Fin 15"
proof -
  have 1: "\<exists>g \<in> set (split_on is_sep (trim (js ''1:xx''))). isNaN (Number sample_ieee g)"
    by (simp add: eval_defs)
  have 2: "3 < length (split_on is_sep (trim (js ''1:2:3:4:5'')))"
    by (simp add: eval_defs)
  have 3: "fields sample_ieee (js ''75:00'') = Some (Fin 0, Fin 75, Fin 0) \<and>
      (out_of_range (Fin 75) \<or> out_of_range (Fin 0) \<or> js_lt (Fin 0) (Fin 0))"
    by (simp add: fields_def out_of_range_def eval_defs)
  have 4: "fields sample_ieee (js ''7:08:09'') =
        Some (Fin (of_nat 7), Fin (of_nat 8), Fin (of_nat 9)) \<and>
      (7::nat) \<le> 2 ^ 53 \<and> (8::nat) \<le> 59 \<and> (9::nat) \<le> 59"
    by (simp add: fields_def eval_defs)
  have 5: "js ''15'' \<noteq> [] \<and> list_all is_digit (js ''15'') \<and> length (js ''15'') \<le> 15"
    by (simp add: js_def is_digit_def)
  have t: "two 7 @ [58] @ two 8 @ [58] @ two 9 = js ''07:08:09''"
    by (simp add: two_def js_def)
  have v: "dec_value (js ''15'') = 15"
    by (simp add: dec_value_def js_def)
  from normaliseTimestamp_contract [of "js ''1:xx''" sample_ieee] 1
  have r1: "normaliseTimestamp sample_ieee (js ''1:xx'') = None" by blast
  from normaliseTimestamp_contract [of "js ''1:2:3:4:5''" sample_ieee] 2
  have r2: "normaliseTimestamp sample_ieee (js ''1:2:3:4:5'') = None" by blast
  from normaliseTimestamp_contract [of "js ''75:00''" sample_ieee] 3
  have r3: "normaliseTimestamp sample_ieee (js ''75:00'') = None" by blast
  from normaliseTimestamp_contract [of "js ''7:08:09''" sample_ieee] 4
  have r4: "normaliseTimestamp sample_ieee (js ''7:08:09'') =
        Some (two 7 @ [58] @ two 8 @ [58] @ two 9) \<and>
      is_hhmmss (two 7 @ [58] @ two 8 @ [58] @ two 9)" by blast
  from normaliseTimestamp_contract [of "js ''1''" sample_ieee] 5
  have r5: "Number sample_ieee (js ''15'') = Fin (of_nat (dec_value (js ''15'')))" by blast
  from r1 r2 r3 r4 [unfolded t] r5 [unfolded v] show ?thesis by simp
qed

text \<open>
  C4 as stated fails: the groups of \<^verbatim>\<open>Infinity:00:00\<close> are numbers for \<^verbatim>\<open>Number\<close>, there are
  three of them, minutes and seconds are 0 and hours are not negative, and the result is
  neither \<^verbatim>\<open>null\<close> nor of the form \<^verbatim>\<open>HH:MM:SS\<close>.
\<close>

theorem normaliseTimestamp_infinity_counterexample:
  "fields sample_ieee (js ''Infinity:00:00'') = Some (PosInf, Fin 0, Fin 0) \<and>
   \<not> isNaN PosInf \<and> \<not> out_of_range (Fin 0) \<and> \<not> js_lt PosInf (Fin 0) \<and>
   normaliseTimestamp sample_ieee (js ''Infinity:00:00'') = Some (js ''Infinity:00:00'') \<and>
   \<not> is_hhmmss (js ''Infinity:00:00'')"
  by (simp add: fields_def out_of_range_def is_hhmmss_def eval_defs)

text \<open>
  C9. \<^verbatim>\<open>normaliseTimestamp\<close> leaves every canonical \<^verbatim>\<open>HH:MM:SS\<close> string of two-digit fields,
  with minutes and seconds at most 59, as it is.
\<close>

theorem normaliseTimestamp_canonical_fixed:
  "valid_hhmmss x \<Longrightarrow> normaliseTimestamp fp x = Some x"
  by (rule valid_hhmmss_roundtrip)

theorem normaliseTimestamp_canonical_fixed_witness:
  "valid_hhmmss (js ''01:02:15'') \<and>
   normaliseTimestamp sample_ieee (js ''01:02:15'') = Some (js ''01:02:15'')"
proof -
  have v: "valid_hhmmss (js ''01:02:15'')"
    by (simp add: valid_hhmmss_def js_def is_digit_def dec_value_def)
  from normaliseTimestamp_canonical_fixed [OF v, of sample_ieee] v show ?thesis by simp
qed

section \<open>Properties of the regular expressions\<close>

subsection \<open>The matcher finds what the expression denotes\<close>

lemma star_iter_sound:
  assumes f: "\<And>t. set (f t) \<subseteq> rests A t"
  shows "set (star_iter f n s) \<subseteq> rests (star A) s"
proof (induction n arbitrary: s)
  case 0
  show ?case by (auto simp: rests_def intro: star.star_empty)
next
  case (Suc n)
  show ?case
  proof
    fix t assume "t \<in> set (star_iter f (Suc n) s)"
    then consider "t = s" | t1 where "t1 \<in> set (f s)" "t \<in> set (star_iter f n t1)"
      by auto
    then show "t \<in> rests (star A) s"
    proof cases
      case 1
      then show ?thesis by (auto simp: rests_def intro: star.star_empty)
    next
      case 2
      from 2(1) f obtain u where u: "u \<in> A" "s = u @ t1" by (auto simp: rests_def)
      from 2(2) Suc obtain v where v: "v \<in> star A" "t1 = v @ t" by (auto simp: rests_def)
      from u v have "u @ v \<in> star A" "s = (u @ v) @ t" by (auto intro: star.star_step)
      then show ?thesis unfolding rests_def by blast
    qed
  qed
qed

lemma star_iter_self: "s \<in> set (star_iter f n s)"
  by (cases n) auto

lemma star_iter_complete:
  assumes f: "\<And>t. rests A t \<subseteq> set (f t)"
    and u: "u \<in> star A"
  shows "length (u @ t) \<le> n \<Longrightarrow> t \<in> set (star_iter f n (u @ t))"
  using u
proof (induction arbitrary: n rule: star.induct)
  case star_empty
  show ?case by (simp add: star_iter_self)
next
  case (star_step u1 u2)
  show ?case
  proof (cases "u1 = []")
    case True
    with star_step show ?thesis by simp
  next
    case False
    then have "Suc (length (u2 @ t)) \<le> length ((u1 @ u2) @ t)" by (cases u1) auto
    with star_step.prems have "Suc (length (u2 @ t)) \<le> n" by linarith
    then obtain n' where n: "n = Suc n'" "length (u2 @ t) \<le> n'"
      by (cases n) auto
    have "u2 @ t \<in> rests A (u1 @ u2 @ t)" using star_step.hyps(1) by (auto simp: rests_def)
    with f have 1: "u2 @ t \<in> set (f (u1 @ u2 @ t))" by blast
    have 2: "length (u2 @ t) < length (u1 @ u2 @ t)" using False by simp
    have 3: "t \<in> set (star_iter f n' (u2 @ t))" using star_step.IH n by simp
    from 1 2 3 show ?thesis unfolding n by auto
  qed
qed

lemma matches_rests: "set (matches i r s) = rests (lang i r) s"
proof (induction r arbitrary: s)
  case Eps
  show ?case by (auto simp: rests_def)
next
  case (Lit c)
  show ?case by (cases s) (auto simp: rests_def)
next
  case (Cls p)
  show ?case by (cases s) (auto simp: rests_def)
next
  case (Seq a b)
  show ?case
  proof (intro set_eqI iffI)
    fix t assume "t \<in> set (matches i (Seq a b) s)"
    then obtain t1 where "t1 \<in> set (matches i a s)" "t \<in> set (matches i b t1)" by auto
    with Seq obtain u v where "u \<in> lang i a" "s = u @ t1" "v \<in> lang i b" "t1 = v @ t"
      by (auto simp: rests_def)
    then have "u @ v \<in> lang i (Seq a b)" "s = (u @ v) @ t" by auto
    then show "t \<in> rests (lang i (Seq a b)) s" unfolding rests_def by blast
  next
    fix t assume "t \<in> rests (lang i (Seq a b)) s"
    then obtain u v where uv: "u \<in> lang i a" "v \<in> lang i b" "s = u @ v @ t"
      by (auto simp: rests_def)
    then have "v @ t \<in> set (matches i a s)" "t \<in> set (matches i b (v @ t))"
      using Seq by (auto simp: rests_def)
    then show "t \<in> set (matches i (Seq a b) s)" by auto
  qed
next
  case (Alt a b)
  then show ?case by (auto simp: rests_def)
next
  case (Opt a)
  then show ?case by (auto simp: rests_def)
next
  case (Star a)
  have "set (matches i (Star a) s) \<subseteq> rests (star (lang i a)) s"
    using star_iter_sound [of "\<lambda>t. matches i a t" "lang i a"] Star by simp
  moreover have "rests (star (lang i a)) s \<subseteq> set (matches i (Star a) s)"
  proof
    fix t assume "t \<in> rests (star (lang i a)) s"
    then obtain u where "u \<in> star (lang i a)" "s = u @ t" by (auto simp: rests_def)
    then show "t \<in> set (matches i (Star a) s)"
      using star_iter_complete [of "lang i a" "\<lambda>t. matches i a t" u t "length s"] Star by simp
  qed
  ultimately show ?case by auto
qed

lemma match_here_None: "match_here i r s = None \<longleftrightarrow> rests (lang i r) s = {}"
proof -
  have "match_here i r s = None \<longleftrightarrow> set (matches i r s) = {}"
    by (auto simp: match_here_def split: list.splits)
  then show ?thesis by (simp add: matches_rests)
qed

lemma match_here_Some:
  assumes "match_here i r s = Some n"
  shows "n \<le> length s \<and> take n s \<in> lang i r"
proof -
  from assms obtain t ts where m: "matches i r s = t # ts" and n: "n = length s - length t"
    by (auto simp: match_here_def split: list.splits)
  from m have "t \<in> set (matches i r s)" by simp
  then obtain u where "u \<in> lang i r" "s = u @ t" by (auto simp: matches_rests rests_def)
  with n show ?thesis by simp
qed

lemma search_None: "search i r s = None \<longleftrightarrow> (\<forall>k \<le> length s. rests (lang i r) (drop k s) = {})"
proof (induction s)
  case Nil
  show ?case using match_here_None [of i r "[]"] by (auto split: option.splits)
next
  case (Cons c cs)
  have "(\<forall>k \<le> length (c # cs). rests (lang i r) (drop k (c # cs)) = {}) \<longleftrightarrow>
        rests (lang i r) (c # cs) = {} \<and> (\<forall>k \<le> length cs. rests (lang i r) (drop k cs) = {})"
    (is "?A \<longleftrightarrow> ?B")
  proof
    assume a: ?A
    have "rests (lang i r) (drop (Suc k) (c # cs)) = {}" if "k \<le> length cs" for k
      using a that by (metis Suc_le_mono length_Cons)
    moreover have "rests (lang i r) (drop 0 (c # cs)) = {}" using a by blast
    ultimately show ?B by simp
  next
    assume b: ?B
    show ?A
    proof (intro allI impI)
      fix k assume "k \<le> length (c # cs)"
      then show "rests (lang i r) (drop k (c # cs)) = {}" using b by (cases k) auto
    qed
  qed
  with Cons show ?case
    using match_here_None [of i r "c # cs"] by (auto split: option.splits)
qed

lemma search_Some:
  assumes "search i r s = Some (k, n)"
  shows "k + n \<le> length s \<and> take n (drop k s) \<in> lang i r \<and>
         (\<forall>j < k. rests (lang i r) (drop j s) = {})"
  using assms
proof (induction s arbitrary: k)
  case Nil
  then show ?case using match_here_Some [of i r "[]"] by (auto split: option.splits)
next
  case (Cons c cs)
  show ?case
  proof (cases "match_here i r (c # cs)")
    case (Some m)
    with Cons.prems have "k = 0" "m = n" by auto
    with Some match_here_Some [of i r "c # cs" n] show ?thesis by simp
  next
    case None
    with Cons.prems obtain k' where k: "search i r cs = Some (k', n)" "k = Suc k'"
      by (auto split: option.splits)
    from Cons.IH [OF k(1)] have ih: "k' + n \<le> length cs" "take n (drop k' cs) \<in> lang i r"
      "\<forall>j < k'. rests (lang i r) (drop j cs) = {}" by auto
    have "rests (lang i r) (drop j (c # cs)) = {}" if "j < k" for j
    proof (cases j)
      case 0
      with None show ?thesis by (simp add: match_here_None)
    next
      case (Suc j')
      with that k ih(3) show ?thesis by simp
    qed
    with ih k show ?thesis by simp
  qed
qed

lemma occurs_drop: "occurs L s \<longleftrightarrow> (\<exists>k \<le> length s. rests L (drop k s) \<noteq> {})"
proof
  assume "occurs L s"
  then obtain pre u post where "s = pre @ u @ post" "u \<in> L" by (auto simp: occurs_def)
  then have "length pre \<le> length s" "post \<in> rests L (drop (length pre) s)"
    by (auto simp: rests_def)
  then show "\<exists>k \<le> length s. rests L (drop k s) \<noteq> {}" by blast
next
  assume "\<exists>k \<le> length s. rests L (drop k s) \<noteq> {}"
  then obtain k u t where "u \<in> L" "drop k s = u @ t" by (auto simp: rests_def)
  then have "s = take k s @ u @ t" by (metis append_take_drop_id)
  then show "occurs L s" using \<open>u \<in> L\<close> unfolding occurs_def by blast
qed

lemma match_first_None: "match_first i r s = None \<longleftrightarrow> \<not> occurs (lang i r) s"
proof -
  have "match_first i r s = None \<longleftrightarrow> search i r s = None"
    by (auto simp: match_first_def split: option.splits)
  then show ?thesis by (simp add: occurs_drop search_None)
qed

lemma match_first_Some:
  assumes "match_first i r s = Some u"
  shows "u \<in> lang i r \<and>
         (\<exists>pre post. s = pre @ u @ post \<and>
            (\<forall>pre' u' post'. s = pre' @ u' @ post' \<and> u' \<in> lang i r \<longrightarrow> length pre \<le> length pre'))"
proof -
  from assms obtain k n where kn: "search i r s = Some (k, n)" and u: "u = take n (drop k s)"
    by (auto simp: match_first_def split: option.splits)
  from search_Some [OF kn] have b: "k + n \<le> length s" and l: "u \<in> lang i r"
    and first: "\<forall>j < k. rests (lang i r) (drop j s) = {}" by (auto simp: u)
  have dec: "s = take k s @ u @ drop (k + n) s"
    unfolding u by (metis append_take_drop_id drop_drop add.commute)
  have "length (take k s) \<le> length pre'" if "s = pre' @ u' @ post'" "u' \<in> lang i r"
    for pre' u' post'
  proof (rule ccontr)
    assume "\<not> length (take k s) \<le> length pre'"
    with b have "length pre' < k" by simp
    moreover have "post' \<in> rests (lang i r) (drop (length pre') s)"
      using that by (auto simp: rests_def)
    ultimately show False using first by blast
  qed
  with dec l show ?thesis by blast
qed

lemma lang_SeqI: "u \<in> lang i a \<Longrightarrow> v \<in> lang i b \<Longrightarrow> u @ v \<in> lang i (Seq a b)"
  by auto

subsection \<open>Candidate timestamps\<close>

lemma search_leftmost:
  assumes "search i r s = Some (k, n)"
  shows "take n (drop k s) \<in> lang i r \<and> s = take k s @ take n (drop k s) @ drop (k + n) s \<and>
         leftmost (lang i r) (take k s) s"
proof -
  from search_Some [OF assms] have b: "k + n \<le> length s" and l: "take n (drop k s) \<in> lang i r"
    and first: "\<forall>j < k. rests (lang i r) (drop j s) = {}" by auto
  have dec: "s = take k s @ take n (drop k s) @ drop (k + n) s"
    by (metis append_take_drop_id drop_drop add.commute)
  have "length (take k s) \<le> length pre'" if "s = pre' @ u' @ post'" "u' \<in> lang i r"
    for pre' u' post'
  proof (rule ccontr)
    assume "\<not> length (take k s) \<le> length pre'"
    with b have "length pre' < k" by simp
    moreover have "post' \<in> rests (lang i r) (drop (length pre') s)"
      using that by (auto simp: rests_def)
    ultimately show False using first by blast
  qed
  then have "leftmost (lang i r) (take k s) s" unfolding leftmost_def by blast
  with dec l show ?thesis by blast
qed

lemma search_here: "search i r s = Some (k, n) \<Longrightarrow> match_here i r (drop k s) = Some n"
proof (induction s arbitrary: k)
  case Nil
  then show ?case by (auto split: option.splits)
next
  case (Cons c cs)
  show ?case
  proof (cases "match_here i r (c # cs)")
    case (Some m)
    with Cons.prems show ?thesis by auto
  next
    case None
    with Cons.prems obtain k' where "search i r cs = Some (k', n)" "k = Suc k'"
      by (auto split: option.splits)
    with Cons.IH show ?thesis by simp
  qed
qed

text \<open>
  When backtracking lists the rests of a text from the shortest on, the match that it
  reports is the longest member of the language at the start of the text.
\<close>

lemma match_here_longest:
  assumes asc: "sorted_wrt (\<lambda>a b. length a \<le> length b) (matches i r s)"
    and m: "match_here i r s = Some n"
  shows "longest (lang i r) (take n s) (drop n s)"
proof -
  from m obtain t ts where ts: "matches i r s = t # ts" and n: "n = length s - length t"
    by (auto simp: match_here_def split: list.splits)
  have "length u \<le> length (take n s)" if "u \<in> lang i r" "u @ t' = take n s @ drop n s" for u t'
  proof -
    from that have s: "s = u @ t'" by simp
    with that(1) have "t' \<in> rests (lang i r) s" unfolding rests_def by blast
    then have "t' \<in> set (t # ts)" by (simp add: matches_rests [symmetric] ts)
    with asc ts have "length t \<le> length t'" by auto
    with s n show ?thesis by simp
  qed
  then show ?thesis unfolding longest_def by blast
qed

lemma match_all_scans:
  assumes e: "[] \<notin> lang i r"
    and asc: "\<And>t. sorted_wrt (\<lambda>a b. length a \<le> length b) (matches i r t)"
  shows "scans (lang i r) s (match_all i r s)"
  using e asc
proof (induction i r s rule: match_all.induct)
  case (1 i r s)
  note e = "1.prems"(1) and asc = "1.prems"(2)
  show ?case
  proof (cases "search i r s")
    case None
    then have "\<not> occurs (lang i r) s" by (simp add: occurs_drop search_None)
    with None show ?thesis by (subst match_all.simps) (simp add: scans_none)
  next
    case (Some kn)
    obtain k n where kn: "kn = (k, n)" by (cases kn)
    from search_leftmost [OF Some [unfolded kn]]
    have l: "take n (drop k s) \<in> lang i r"
      and dec: "s = take k s @ take n (drop k s) @ drop (k + n) s"
      and lm: "leftmost (lang i r) (take k s) s" by auto
    have n0: "n \<noteq> 0"
    proof
      assume "n = 0"
      with l have "[] \<in> lang i r" by simp
      with e show False by simp
    qed
    have "longest (lang i r) (take n (drop k s)) (drop n (drop k s))"
      by (rule match_here_longest [OF asc search_here [OF Some [unfolded kn]]])
    then have lg: "longest (lang i r) (take n (drop k s)) (drop (k + n) s)"
      by (simp add: add.commute)
    have ih: "scans (lang i r) (drop (k + n) s) (match_all i r (drop (k + n) s))"
      by (rule "1.IH"(2) [OF Some kn [symmetric] n0 e asc])
    have m: "match_all i r s = take n (drop k s) # match_all i r (drop (k + n) s)"
      using Some kn n0 by (subst match_all.simps) simp
    have "scans (lang i r) (take k s @ take n (drop k s) @ drop (k + n) s)
            (take n (drop k s) # match_all i r (drop (k + n) s))"
      using l lm lg ih dec by (intro scans_match) auto
    with dec m show ?thesis by simp
  qed
qed

text \<open>A text has one scan.\<close>

lemma scans_unique: "scans L s ms \<Longrightarrow> scans L s ms' \<Longrightarrow> ms = ms'"
proof (induction arbitrary: ms' rule: scans.induct)
  case (scans_none s)
  from scans_none.prems scans_none.hyps show ?case
    by (cases rule: scans.cases) (auto simp: occurs_def)
next
  case (scans_match m pre post ms)
  from scans_match.prems show ?case
  proof (cases rule: scans.cases)
    case scans_none
    with scans_match.hyps(1) show ?thesis unfolding occurs_def by blast
  next
    case (scans_match m' pre' post' ms2)
    note eq = scans_match(1)
    from \<open>leftmost L pre (pre @ m @ post)\<close> eq \<open>m' \<in> L\<close>
    have "length pre \<le> length pre'" unfolding leftmost_def by blast
    moreover from \<open>leftmost L pre' (pre' @ m' @ post')\<close> eq \<open>m \<in> L\<close>
    have "length pre' \<le> length pre" unfolding leftmost_def by metis
    ultimately have p: "pre = pre'" "m @ post = m' @ post'"
      using eq by (auto simp: append_eq_append_conv)
    from \<open>longest L m post\<close> p(2) \<open>m' \<in> L\<close> have "length m' \<le> length m"
      unfolding longest_def by metis
    moreover from \<open>longest L m' post'\<close> p(2) \<open>m \<in> L\<close> have "length m \<le> length m'"
      unfolding longest_def by metis
    ultimately have "m = m'" "post = post'"
      using p(2) by (auto simp: append_eq_append_conv)
    with scans_match scans_match.IH [of ms2] show ?thesis by simp
  qed
qed

lemma matches_digits12:
  "matches i digits12 s =
     (case s of
        [] \<Rightarrow> []
      | c # t \<Rightarrow>
          if is_digit c
          then (case t of [] \<Rightarrow> [[]] | d # u \<Rightarrow> if is_digit d then [u, d # u] else [d # u])
          else [])"
  by (simp add: digits12_def split: list.splits)

lemma matches_sep_group:
  "matches i sep_group s =
     (case s of [] \<Rightarrow> [] | c # t \<Rightarrow> if is_sep c then matches i digits12 t else [])"
  by (simp add: sep_group_def split: list.splits)

text \<open>
  For the timestamp pattern backtracking lists the rests from the shortest on: a group
  takes two digits when it can, and the second separator and group are taken when they
  are there.
\<close>

lemma tsPattern_ascending:
  "sorted_wrt (\<lambda>a b. length a \<le> length b) (matches False tsPattern s)"
  by (simp add: tsPattern_def matches_sep_group matches_digits12 digit_not_sep split: list.splits)

lemma digit_group_cases:
  "digit_group g \<longleftrightarrow> (\<exists>a. g = [a] \<and> is_digit a) \<or> (\<exists>a b. g = [a, b] \<and> is_digit a \<and> is_digit b)"
proof
  assume "digit_group g"
  then have l: "length g = 1 \<or> length g = 2" and d: "list_all is_digit g"
    by (auto simp: digit_group_def)
  from l show "(\<exists>a. g = [a] \<and> is_digit a) \<or> (\<exists>a b. g = [a, b] \<and> is_digit a \<and> is_digit b)"
  proof
    assume "length g = 1"
    then obtain a where "g = [a]" by (cases g) auto
    with d show ?thesis by simp
  next
    assume "length g = 2"
    then obtain a b where "g = [a, b]"
      by (cases g) (auto simp: length_Suc_conv)
    with d show ?thesis by simp
  qed
next
  assume "(\<exists>a. g = [a] \<and> is_digit a) \<or> (\<exists>a b. g = [a, b] \<and> is_digit a \<and> is_digit b)"
  then show "digit_group g" by (auto simp: digit_group_def)
qed

lemma lang_digits12: "lang i digits12 = {g. digit_group g}"
proof (intro set_eqI iffI)
  fix w assume "w \<in> lang i digits12"
  then obtain a v where "w = [a] @ v" "is_digit a" "v = [] \<or> (\<exists>b. v = [b] \<and> is_digit b)"
    by (auto simp: digits12_def)
  then show "w \<in> {g. digit_group g}" by (auto simp: digit_group_cases)
next
  fix w assume "w \<in> {g. digit_group g}"
  then consider a where "w = [a]" "is_digit a" | a b where "w = [a, b]" "is_digit a" "is_digit b"
    by (auto simp: digit_group_cases)
  then show "w \<in> lang i digits12"
  proof cases
    case 1
    then have "[a] @ [] \<in> lang i (Seq (Cls is_digit) (Opt (Cls is_digit)))"
      by (intro lang_SeqI) auto
    with 1 show ?thesis by (simp add: digits12_def)
  next
    case 2
    then have "[a] @ [b] \<in> lang i (Seq (Cls is_digit) (Opt (Cls is_digit)))"
      by (intro lang_SeqI) auto
    with 2 show ?thesis by (simp add: digits12_def)
  qed
qed

lemma lang_sep_group: "w \<in> lang i sep_group \<longleftrightarrow> (\<exists>c g. w = c # g \<and> is_sep c \<and> digit_group g)"
proof
  assume "w \<in> lang i sep_group"
  then obtain c g where "w = [c] @ g" "is_sep c" "g \<in> lang i digits12"
    by (auto simp: sep_group_def)
  then show "\<exists>c g. w = c # g \<and> is_sep c \<and> digit_group g" by (auto simp: lang_digits12)
next
  assume "\<exists>c g. w = c # g \<and> is_sep c \<and> digit_group g"
  then obtain c g where w: "w = c # g" "is_sep c" "digit_group g" by blast
  then have "[c] @ g \<in> lang i (Seq (Cls is_sep) digits12)"
    by (intro lang_SeqI) (auto simp: lang_digits12)
  with w show "w \<in> lang i sep_group" by (simp add: sep_group_def)
qed

lemma lang_tsPattern:
  "w \<in> lang i tsPattern \<longleftrightarrow>
     (\<exists>a c b. w = a @ c # b \<and> digit_group a \<and> is_sep c \<and> digit_group b) \<or>
     (\<exists>a c b d e. w = a @ c # b @ d # e \<and> digit_group a \<and> is_sep c \<and> digit_group b \<and>
        is_sep d \<and> digit_group e)"
  (is "?L \<longleftrightarrow> ?A \<or> ?B")
proof
  assume ?L
  then obtain a g1 g2 where w: "w = a @ g1 @ g2" "a \<in> lang i digits12" "g1 \<in> lang i sep_group"
    "g2 = [] \<or> g2 \<in> lang i sep_group"
    by (auto simp: tsPattern_def)
  from w(3) obtain c b where g1: "g1 = c # b" "is_sep c" "digit_group b"
    unfolding lang_sep_group by blast
  from w(4) show "?A \<or> ?B"
  proof
    assume "g2 = []"
    with w(1) g1(1) have "w = a @ c # b" by simp
    moreover from w(2) have "digit_group a" by (simp add: lang_digits12)
    ultimately have ?A using g1 by blast
    then show ?thesis ..
  next
    assume "g2 \<in> lang i sep_group"
    then obtain d e where g2: "g2 = d # e" "is_sep d" "digit_group e"
      unfolding lang_sep_group by blast
    from w(2) have a: "digit_group a" by (simp add: lang_digits12)
    have "w = a @ c # b @ d # e" using w(1) g1(1) g2(1) by simp
    with a g1 g2 have ?B by blast
    then show ?thesis ..
  qed
next
  assume "?A \<or> ?B"
  then show ?L
  proof
    assume ?A
    then obtain a c b where w: "w = a @ c # b" "digit_group a" "is_sep c" "digit_group b" by blast
    then have "a @ (c # b) @ [] \<in> lang i (Seq digits12 (Seq sep_group (Opt sep_group)))"
      by (intro lang_SeqI) (auto simp: lang_digits12 lang_sep_group)
    with w show ?L by (simp add: tsPattern_def)
  next
    assume ?B
    then obtain a c b d e where w: "w = a @ c # b @ d # e" "digit_group a" "is_sep c"
      "digit_group b" "is_sep d" "digit_group e" by blast
    then have "a @ (c # b) @ (d # e) \<in> lang i (Seq digits12 (Seq sep_group (Opt sep_group)))"
      by (intro lang_SeqI) (auto simp: lang_digits12 lang_sep_group)
    with w show ?L by (simp add: tsPattern_def)
  qed
qed

lemma digit_group_no_sep: "digit_group g \<Longrightarrow> \<not> list_ex is_sep g"
  by (auto simp: digit_group_def list_ex_iff list_all_iff digit_not_sep)

lemma split_on_single: "split_on p u = [g] \<Longrightarrow> u = g"
proof (induction u arbitrary: g)
  case Nil
  then show ?case by simp
next
  case (Cons x xs)
  then show ?case by (auto split: if_splits list.splits simp: split_on_nonempty)
qed

lemma split_on_more:
  "split_on p u = g # g' # gs \<Longrightarrow> \<exists>c rest. p c \<and> u = g @ c # rest \<and> split_on p rest = g' # gs"
proof (induction u arbitrary: g)
  case Nil
  then show ?case by simp
next
  case (Cons x xs)
  show ?case
  proof (cases "p x")
    case True
    with Cons.prems show ?thesis by auto
  next
    case False
    with Cons.prems obtain g0 where g0: "split_on p xs = g0 # g' # gs" "g = x # g0"
      by (auto split: list.splits)
    from Cons.IH [OF g0(1)] obtain c rest where "p c" "xs = g0 @ c # rest" "split_on p rest = g' # gs"
      by blast
    with g0 show ?thesis by auto
  qed
qed

lemma candidates_lang: "lang i tsPattern = candidates"
proof (intro set_eqI iffI)
  fix u assume "u \<in> lang i tsPattern"
  then consider a c b where "u = a @ c # b" "digit_group a" "is_sep c" "digit_group b"
    | a c b d e where "u = a @ c # b @ d # e" "digit_group a" "is_sep c" "digit_group b" "is_sep d"
      "digit_group e"
    unfolding lang_tsPattern by blast
  then show "u \<in> candidates"
  proof cases
    case 1
    then have "split_on is_sep u = [a, b]"
      by (simp add: split_on_append split_on_none digit_group_no_sep)
    with 1 show ?thesis by (simp add: candidates_def is_candidate_def)
  next
    case 2
    then have "split_on is_sep u = [a, b, e]"
      by (simp add: split_on_append split_on_none digit_group_no_sep)
    with 2 show ?thesis by (simp add: candidates_def is_candidate_def)
  qed
next
  fix u assume "u \<in> candidates"
  then consider a b where "split_on is_sep u = [a, b]" "digit_group a" "digit_group b"
    | a b e where "split_on is_sep u = [a, b, e]" "digit_group a" "digit_group b" "digit_group e"
    unfolding candidates_def is_candidate_def
    by (auto split: list.splits)
  then show "u \<in> lang i tsPattern"
  proof cases
    case 1
    from split_on_more [OF 1(1)] obtain c rest where c: "is_sep c" "u = a @ c # rest"
      "split_on is_sep rest = [b]" by blast
    from split_on_single [OF c(3)] c 1 show ?thesis unfolding lang_tsPattern by blast
  next
    case 2
    from split_on_more [OF 2(1)] obtain c rest where c: "is_sep c" "u = a @ c # rest"
      "split_on is_sep rest = [b, e]" by blast
    from split_on_more [OF c(3)] obtain d rest' where d: "is_sep d" "rest = b @ d # rest'"
      "split_on is_sep rest' = [e]" by blast
    from split_on_single [OF d(3)] c d 2 show ?thesis unfolding lang_tsPattern by blast
  qed
qed

lemma digit_group_props:
  assumes "digit_group g"
  shows "g \<noteq> []" "list_all is_digit g" "length g \<le> 15" "dec_value g < 100"
    "is_digit (hd g)" "is_digit (last g)"
proof -
  from assms show g: "g \<noteq> []" and d: "list_all is_digit g" and "length g \<le> 15"
    by (auto simp: digit_group_def)
  from assms have "length g \<le> 2" by (auto simp: digit_group_def)
  then have "(10::nat) ^ length g \<le> 10 ^ 2" by (intro power_increasing) auto
  with dec_value_bound [OF d] show "dec_value g < 100" by simp
  from g d show "is_digit (hd g)" by (cases g) auto
  from g d show "is_digit (last g)" by (auto simp: list_all_iff)
qed

lemma Number_digit_group: "digit_group g \<Longrightarrow> Number fp g = Fin (of_nat (dec_value g))"
  by (intro Number_digits15 digit_group_props)

lemma two_small: "n < 100 \<Longrightarrow> two n = [48 + n div 10, 48 + n mod 10]"
  by (simp add: two_def dec_digits_two)

lemma valid_two:
  assumes "h < 100" "m \<le> 59" "s \<le> 59"
  shows "valid_hhmmss (two h @ [58] @ two m @ [58] @ two s)"
proof -
  have d: "is_digit (48 + k div 10)" "is_digit (48 + k mod 10)" if "k < 100" for k :: nat
  proof -
    from that have "k div 10 < 10" "k mod 10 < 10" by auto
    then show "is_digit (48 + k div 10)" "is_digit (48 + k mod 10)"
      unfolding is_digit_def by linarith+
  qed
  have v: "dec_value [48 + k div 10, 48 + k mod 10] = k" for k :: nat
    by (simp add: dec_value_def)
  from assms have "m < 100" "s < 100" by auto
  with assms d show ?thesis
    by (simp add: two_small valid_hhmmss_def v)
qed

lemma candidate_normalise:
  assumes "u \<in> candidates"
  shows "\<exists>h m s. h < 100 \<and> m < 100 \<and> s < 100 \<and>
           fields fp u = Some (Fin (of_nat h), Fin (of_nat m), Fin (of_nat s))"
proof -
  from assms have "u \<in> lang False tsPattern" by (simp add: candidates_lang)
  then consider a c b where "u = a @ c # b" "digit_group a" "is_sep c" "digit_group b"
    | a c b d e where "u = a @ c # b @ d # e" "digit_group a" "is_sep c" "digit_group b" "is_sep d"
      "digit_group e"
    unfolding lang_tsPattern by blast
  then show ?thesis
  proof cases
    case 1
    have "trim u = u"
      using 1 digit_group_props [OF 1(2)] digit_group_props [OF 1(4)]
      by (intro trim_id) (auto simp: digit_not_space)
    moreover have "split_on is_sep u = [a, b]"
      using 1 by (simp add: split_on_append split_on_none digit_group_no_sep)
    ultimately have "fields fp u =
        Some (Fin (of_nat 0), Fin (of_nat (dec_value a)), Fin (of_nat (dec_value b)))"
      using 1 by (simp add: fields_def Number_digit_group)
    with digit_group_props(4) [OF 1(2)] digit_group_props(4) [OF 1(4)] show ?thesis
      by (metis zero_less_numeral)
  next
    case 2
    have "trim u = u"
      using 2 digit_group_props [OF 2(2)] digit_group_props [OF 2(6)]
      by (intro trim_id) (auto simp: digit_not_space)
    moreover have "split_on is_sep u = [a, b, e]"
      using 2 by (simp add: split_on_append split_on_none digit_group_no_sep)
    ultimately have "fields fp u =
        Some (Fin (of_nat (dec_value a)), Fin (of_nat (dec_value b)), Fin (of_nat (dec_value e)))"
      using 2 by (simp add: fields_def Number_digit_group)
    with digit_group_props(4) [OF 2(2)] digit_group_props(4) [OF 2(4)]
      digit_group_props(4) [OF 2(6)] show ?thesis by blast
  qed
qed

lemma candidate_valid:
  assumes "u \<in> candidates" "normaliseTimestamp fp u = Some x"
  shows "valid_hhmmss x"
proof -
  from candidate_normalise [OF assms(1), of fp] obtain h m s where b: "h < 100" "m < 100" "s < 100"
    and f: "fields fp u = Some (Fin (of_nat h), Fin (of_nat m), Fin (of_nat s))" by blast
  show ?thesis
  proof (cases "m \<le> 59 \<and> s \<le> 59")
    case True
    with b nt_ok [OF f] have "normaliseTimestamp fp u = Some (two h @ [58] @ two m @ [58] @ two s)"
      by simp
    with assms(2) True b valid_two [of h m s] show ?thesis by simp
  next
    case False
    then have "out_of_range (Fin (of_nat m)) \<or> out_of_range (Fin (of_nat s))"
      by (auto simp: out_of_range_def js_gt_def)
    with nt_range [OF f] assms(2) show ?thesis by simp
  qed
qed

lemma scans_members: "scans L s ms \<Longrightarrow> set ms \<subseteq> L"
  by (induction rule: scans.induct) auto

lemma empty_not_candidate: "[] \<notin> candidates"
  by (simp add: candidates_def is_candidate_def)

lemma tsPattern_scans: "scans candidates s (match_all False tsPattern s)"
  using match_all_scans [of False tsPattern s] empty_not_candidate tsPattern_ascending
  by (simp add: candidates_lang)

lemma match_all_candidates: "set (match_all False tsPattern s) \<subseteq> candidates"
  using tsPattern_scans [of s] scans_members by blast

lemma extractTimestamps_eq:
  "extractTimestamps fp s =
     (case match_all False tsPattern s of
        m0 # m1 # _ \<Rightarrow>
          (case (normaliseTimestamp fp m0, normaliseTimestamp fp m1) of
             (Some a, Some b) \<Rightarrow> Some \<lparr>startTime = a, endTime = b\<rparr>
           | _ \<Rightarrow> None)
      | _ \<Rightarrow> None)"
proof (cases "match_all False tsPattern s")
  case Nil
  then show ?thesis by (simp add: extractTimestamps_def)
next
  case (Cons m0 ms)
  note c0 = Cons
  show ?thesis
  proof (cases ms)
    case Nil
    with c0 show ?thesis by (simp add: extractTimestamps_def)
  next
    case (Cons m1 rest)
    with c0 match_all_candidates [of s] have c: "m0 \<in> candidates" "m1 \<in> candidates" by auto
    have "x \<noteq> []" if "normaliseTimestamp fp m = Some x" "m \<in> candidates" for m x
      using candidate_valid [OF that(2) that(1)] by (auto simp: valid_hhmmss_def)
    with c c0 Cons show ?thesis
      by (auto simp: extractTimestamps_def split: option.splits)
  qed
qed

lemma extractTimestamps_valid:
  assumes "extractTimestamps fp s = Some ts"
  shows "valid_hhmmss (startTime ts) \<and> valid_hhmmss (endTime ts)"
proof -
  from assms obtain m0 m1 rest where m: "match_all False tsPattern s = m0 # m1 # rest"
    and n: "normaliseTimestamp fp m0 = Some (startTime ts)" "normaliseTimestamp fp m1 = Some (endTime ts)"
    unfolding extractTimestamps_eq by (auto split: list.splits option.splits)
  from m match_all_candidates [of s] have "m0 \<in> candidates" "m1 \<in> candidates" by auto
  with n show ?thesis by (auto intro: candidate_valid)
qed

subsection \<open>Claims about \<^verbatim>\<open>extractTimestamps\<close>\<close>

lemmas ts_eval = match_all.simps match_here_def tsPattern_def digits12_def sep_group_def
  is_digit_def is_sep_def js_def

lemma match_all_example1:
  "match_all False tsPattern (js ''from 1:20 to 2:45'') = [js ''1:20'', js ''2:45'']"
  by (simp add: ts_eval)

lemma match_all_example2:
  "match_all False tsPattern (js ''only one 1:20 here'') = [js ''1:20'']"
  by (simp add: ts_eval)

lemma match_all_example3:
  "match_all False tsPattern (js ''1:02:15 - 1:03:00'') = [js ''1:02:15'', js ''1:03:00'']"
  "match_all False tsPattern (js ''cut 1:02:15 to 1:03:00 and 5:00'') =
     [js ''1:02:15'', js ''1:03:00'', js ''5:00'']"
  by (simp_all add: ts_eval)

lemma extractTimestamps_examples:
  "extractTimestamps fp (js ''from 1:20 to 2:45'') =
     Some \<lparr>startTime = js ''00:01:20'', endTime = js ''00:02:45''\<rparr>"
  "extractTimestamps fp (js ''only one 1:20 here'') = None"
  "extractTimestamps fp (js ''1:02:15 - 1:03:00'') =
     Some \<lparr>startTime = js ''01:02:15'', endTime = js ''01:03:00''\<rparr>"
  "extractTimestamps fp (js ''cut 1:02:15 to 1:03:00 and 5:00'') =
     Some \<lparr>startTime = js ''01:02:15'', endTime = js ''01:03:00''\<rparr>"
proof -
  have n: "normaliseTimestamp fp (js ''1:20'') = Some (js ''00:01:20'')"
    "normaliseTimestamp fp (js ''2:45'') = Some (js ''00:02:45'')"
    "normaliseTimestamp fp (js ''1:02:15'') = Some (js ''01:02:15'')"
    "normaliseTimestamp fp (js ''1:03:00'') = Some (js ''01:03:00'')"
    by (simp_all add: eval_defs)
  show "extractTimestamps fp (js ''from 1:20 to 2:45'') =
     Some \<lparr>startTime = js ''00:01:20'', endTime = js ''00:02:45''\<rparr>"
    unfolding extractTimestamps_eq match_all_example1 by (simp add: n)
  show "extractTimestamps fp (js ''only one 1:20 here'') = None"
    unfolding extractTimestamps_eq match_all_example2 by simp
  show "extractTimestamps fp (js ''1:02:15 - 1:03:00'') =
     Some \<lparr>startTime = js ''01:02:15'', endTime = js ''01:03:00''\<rparr>"
    unfolding extractTimestamps_eq match_all_example3 by (simp add: n)
  show "extractTimestamps fp (js ''cut 1:02:15 to 1:03:00 and 5:00'') =
     Some \<lparr>startTime = js ''01:02:15'', endTime = js ''01:03:00''\<rparr>"
    unfolding extractTimestamps_eq match_all_example3 by (simp add: n)
qed

lemma extractTimestamps_scan:
  assumes "scans candidates t ms"
  shows "extractTimestamps fp t =
     (case ms of
        m0 # m1 # _ \<Rightarrow>
          (case (normaliseTimestamp fp m0, normaliseTimestamp fp m1) of
             (Some a, Some b) \<Rightarrow> Some \<lparr>startTime = a, endTime = b\<rparr>
           | _ \<Rightarrow> None)
      | _ \<Rightarrow> None)"
  unfolding scans_unique [OF assms tsPattern_scans] by (rule extractTimestamps_eq)

lemma extractTimestamps_few:
  assumes "scans candidates t ms" "length ms < 2"
  shows "extractTimestamps fp t = None"
  unfolding extractTimestamps_scan [OF assms(1)] using assms(2)
  by (cases ms; cases "tl ms") auto

lemma candidate_result:
  assumes "u \<in> candidates"
  shows "\<exists>h m s. h < 100 \<and> m < 100 \<and> s < 100 \<and>
           fields fp u = Some (Fin (of_nat h), Fin (of_nat m), Fin (of_nat s)) \<and>
           normaliseTimestamp fp u = (if m \<le> 59 \<and> s \<le> 59 then Some (clock h m s) else None)"
proof -
  from candidate_normalise [OF assms, of fp] obtain h m s where b: "h < 100" "m < 100" "s < 100"
    and f: "fields fp u = Some (Fin (of_nat h), Fin (of_nat m), Fin (of_nat s))" by blast
  have "normaliseTimestamp fp u = (if m \<le> 59 \<and> s \<le> 59 then Some (clock h m s) else None)"
  proof (cases "m \<le> 59 \<and> s \<le> 59")
    case True
    with b nt_ok [OF f] have "normaliseTimestamp fp u = Some (two h @ [58] @ two m @ [58] @ two s)"
      by simp
    with True b show ?thesis by (simp add: two_small clock_def)
  next
    case False
    then have "out_of_range (Fin (of_nat m)) \<or> out_of_range (Fin (of_nat s))"
      by (auto simp: out_of_range_def js_gt_def)
    with nt_range [OF f] False show ?thesis by simp
  qed
  with b f show ?thesis by blast
qed

text \<open>
  C5. The text has exactly one scan for candidate timestamps, each candidate the first one
  in the rest of the text and the longest one at its place, and it is the list of matches
  that \<^verbatim>\<open>extractTimestamps\<close> takes from the text. The function normalises the first two
  candidates of the scan and returns them as start and end; it returns \<^verbatim>\<open>null\<close> when the
  scan has fewer than two candidates or when one of the first two does not normalise. A
  candidate has hours, minutes and seconds below 100 and normalises to their canonical
  timestamp when minutes and seconds are at most 59, and to \<^verbatim>\<open>null\<close> otherwise; so a pair
  that is returned holds two canonical timestamps. The examples hold, two of them with
  three groups, one with a third candidate that is not used.
\<close>

theorem extractTimestamps_first_two:
  "scans candidates t (match_all False tsPattern t) \<and>
   (\<forall>ms. scans candidates t ms \<longrightarrow>
      ms = match_all False tsPattern t \<and>
      extractTimestamps fp t =
        (case ms of
           m0 # m1 # _ \<Rightarrow>
             (case (normaliseTimestamp fp m0, normaliseTimestamp fp m1) of
                (Some a, Some b) \<Rightarrow> Some \<lparr>startTime = a, endTime = b\<rparr>
              | _ \<Rightarrow> None)
         | _ \<Rightarrow> None) \<and>
      (length ms < 2 \<longrightarrow> extractTimestamps fp t = None)) \<and>
   (\<forall>u. u \<in> candidates \<longrightarrow>
      (\<exists>h m s. h < 100 \<and> m < 100 \<and> s < 100 \<and>
         fields fp u = Some (Fin (of_nat h), Fin (of_nat m), Fin (of_nat s)) \<and>
         normaliseTimestamp fp u =
           (if m \<le> 59 \<and> s \<le> 59 then Some (clock h m s) else None))) \<and>
   (\<forall>ts. extractTimestamps fp t = Some ts \<longrightarrow>
      valid_hhmmss (startTime ts) \<and> valid_hhmmss (endTime ts)) \<and>
   extractTimestamps fp (js ''from 1:20 to 2:45'') =
     Some \<lparr>startTime = js ''00:01:20'', endTime = js ''00:02:45''\<rparr> \<and>
   extractTimestamps fp (js ''only one 1:20 here'') = None \<and>
   extractTimestamps fp (js ''1:02:15 - 1:03:00'') =
     Some \<lparr>startTime = js ''01:02:15'', endTime = js ''01:03:00''\<rparr> \<and>
   extractTimestamps fp (js ''cut 1:02:15 to 1:03:00 and 5:00'') =
     Some \<lparr>startTime = js ''01:02:15'', endTime = js ''01:03:00''\<rparr>"
proof -
  have 1: "\<forall>ms. scans candidates t ms \<longrightarrow>
      ms = match_all False tsPattern t \<and>
      extractTimestamps fp t =
        (case ms of
           m0 # m1 # _ \<Rightarrow>
             (case (normaliseTimestamp fp m0, normaliseTimestamp fp m1) of
                (Some a, Some b) \<Rightarrow> Some \<lparr>startTime = a, endTime = b\<rparr>
              | _ \<Rightarrow> None)
         | _ \<Rightarrow> None) \<and>
      (length ms < 2 \<longrightarrow> extractTimestamps fp t = None)"
    using scans_unique [OF _ tsPattern_scans [of t]] extractTimestamps_scan [of t _ fp]
      extractTimestamps_few [of t _ fp]
    by (intro allI impI conjI)
  have 2: "\<forall>u. u \<in> candidates \<longrightarrow>
      (\<exists>h m s. h < 100 \<and> m < 100 \<and> s < 100 \<and>
         fields fp u = Some (Fin (of_nat h), Fin (of_nat m), Fin (of_nat s)) \<and>
         normaliseTimestamp fp u =
           (if m \<le> 59 \<and> s \<le> 59 then Some (clock h m s) else None))"
    using candidate_result [of _ fp] by (intro allI impI)
  have 3: "\<forall>ts. extractTimestamps fp t = Some ts \<longrightarrow>
      valid_hhmmss (startTime ts) \<and> valid_hhmmss (endTime ts)"
    using extractTimestamps_valid [of fp t] by (intro allI impI)
  show ?thesis
    by (rule conjI [OF tsPattern_scans conjI [OF 1 conjI [OF 2 conjI [OF 3
          conjI [OF extractTimestamps_examples(1) conjI [OF extractTimestamps_examples(2)
            conjI [OF extractTimestamps_examples(3) extractTimestamps_examples(4)]]]]]]])
qed

theorem extractTimestamps_first_two_witness:
  "scans candidates (js ''only one 1:20 here'') [js ''1:20''] \<and>
   length [js ''1:20''] < 2 \<and>
   extractTimestamps sample_ieee (js ''only one 1:20 here'') = None \<and>
   js ''1:75'' \<in> candidates \<and>
   normaliseTimestamp sample_ieee (js ''1:75'') = None \<and>
   extractTimestamps sample_ieee (js ''from 1:20 to 2:45'') =
     Some \<lparr>startTime = js ''00:01:20'', endTime = js ''00:02:45''\<rparr> \<and>
   valid_hhmmss (js ''00:01:20'') \<and> valid_hhmmss (js ''00:02:45'')"
proof -
  note t1 = extractTimestamps_first_two [of "js ''only one 1:20 here''" sample_ieee]
  from t1 [THEN conjunct1]
  have 1: "scans candidates (js ''only one 1:20 here'') [js ''1:20'']"
    unfolding match_all_example2 .
  have 2: "length [js ''1:20''] < 2" by simp
  from t1 [THEN conjunct2, THEN conjunct1, rule_format, OF 1, THEN conjunct2, THEN conjunct2,
      rule_format, OF 2]
  have 3: "extractTimestamps sample_ieee (js ''only one 1:20 here'') = None" .
  have 4: "js ''1:75'' \<in> candidates"
    by (simp add: candidates_def is_candidate_def digit_group_def is_sep_def is_digit_def js_def)
  from t1 [THEN conjunct2, THEN conjunct2, THEN conjunct1, rule_format, OF 4]
  obtain h m s where f: "fields sample_ieee (js ''1:75'') =
      Some (Fin (of_nat h), Fin (of_nat m), Fin (of_nat s))"
    and n: "normaliseTimestamp sample_ieee (js ''1:75'') =
      (if m \<le> 59 \<and> s \<le> 59 then Some (clock h m s) else None)"
    by blast
  have "fields sample_ieee (js ''1:75'') = Some (Fin 0, Fin 1, Fin 75)"
    by (simp add: fields_def eval_defs)
  with f have "s = 75" by simp
  with n have 5: "normaliseTimestamp sample_ieee (js ''1:75'') = None" by simp
  note t2 = extractTimestamps_first_two [of "js ''from 1:20 to 2:45''" sample_ieee]
  note 6 = t2 [THEN conjunct2, THEN conjunct2, THEN conjunct2, THEN conjunct2, THEN conjunct1]
  from t2 [THEN conjunct2, THEN conjunct2, THEN conjunct2, THEN conjunct1, rule_format, OF 6]
  have 7: "valid_hhmmss (js ''00:01:20'') \<and> valid_hhmmss (js ''00:02:45'')" by simp
  from 1 2 3 4 5 6 7 show ?thesis by (intro conjI) simp_all
qed

section \<open>Properties of URL extraction\<close>

subsection \<open>Concatenation and case\<close>

lemma concI: "u \<in> A \<Longrightarrow> v \<in> B \<Longrightarrow> u @ v \<in> conc A B"
  unfolding conc_def by blast

lemma concE: "w \<in> conc A B \<Longrightarrow> (\<And>u v. w = u @ v \<Longrightarrow> u \<in> A \<Longrightarrow> v \<in> B \<Longrightarrow> P) \<Longrightarrow> P"
  unfolding conc_def by blast

lemma conc_assoc: "conc (conc A B) C = conc A (conc B C)"
proof (intro set_eqI iffI)
  fix w assume "w \<in> conc (conc A B) C"
  then obtain a b c where "w = (a @ b) @ c" "a \<in> A" "b \<in> B" "c \<in> C"
    by (auto elim!: concE)
  then show "w \<in> conc A (conc B C)" by (auto intro!: concI)
next
  fix w assume "w \<in> conc A (conc B C)"
  then obtain a b c where w: "w = a @ b @ c" "a \<in> A" "b \<in> B" "c \<in> C"
    by (auto elim!: concE)
  then have "(a @ b) @ c \<in> conc (conc A B) C" by (intro concI)
  with w show "w \<in> conc (conc A B) C" by simp
qed

lemma conc_empty_right: "conc A {[]} = A"
  by (auto simp: conc_def)

lemma conc_empty_left: "conc {[]} A = A"
  by (auto simp: conc_def)

lemma conc_Un_left: "conc (A \<union> B) C = conc A C \<union> conc B C"
  by (auto simp: conc_def)

lemma conc_Un_right: "conc A (B \<union> C) = conc A B \<union> conc A C"
  by (auto simp: conc_def)

lemma lang_Seq: "lang i (Seq a b) = conc (lang i a) (lang i b)"
  by (auto simp: conc_def)

lemma lang_seqs_Nil: "lang i (seqs []) = {[]}"
  by (simp add: seqs_def)

lemma lang_seqs_Cons: "lang i (seqs (r # rs)) = conc (lang i r) (lang i (seqs rs))"
  by (simp add: seqs_def conc_def)

lemma lit_eq_upper: "lit_eq True c d \<longleftrightarrow> upper d = upper c"
  by (simp add: lit_eq_def canonicalize_def upper_def)

lemma any_case_Nil: "any_case [] = {[]}"
  by (simp add: any_case_def js_def)

lemma any_case_Cons:
  "any_case (c # cs) = conc {[d] | d. upper d = upper (of_char c)} (any_case cs)"
proof (intro set_eqI iffI)
  fix t assume "t \<in> any_case (c # cs)"
  then obtain d v where "t = d # v" "upper d = upper (of_char c)" "map upper v = map upper (js cs)"
    by (auto simp: any_case_def js_def map_eq_Cons_conv)
  then have "[d] @ v \<in> conc {[d] | d. upper d = upper (of_char c)} (any_case cs)"
    by (intro concI) (auto simp: any_case_def)
  with \<open>t = d # v\<close> show "t \<in> conc {[d] | d. upper d = upper (of_char c)} (any_case cs)" by simp
next
  fix t assume "t \<in> conc {[d] | d. upper d = upper (of_char c)} (any_case cs)"
  then show "t \<in> any_case (c # cs)"
    by (auto elim!: concE simp: any_case_def js_def)
qed

lemma lang_str: "lang True (str cs) = any_case cs"
proof (induction cs)
  case Nil
  show ?case by (simp add: str_def any_case_Nil)
next
  case (Cons c cs)
  have "lang True (str (c # cs)) = conc (lang True (Lit (of_char c))) (lang True (str cs))"
    by (simp add: str_def conc_def)
  also have "lang True (Lit (of_char c)) = {[d] | d. upper d = upper (of_char c)}"
    by (simp add: lit_eq_upper)
  finally show ?case by (simp add: Cons any_case_Cons)
qed

lemma any_case_append: "any_case (xs @ ys) = conc (any_case xs) (any_case ys)"
proof (induction xs)
  case Nil
  show ?case by (simp add: any_case_Nil conc_empty_left)
next
  case (Cons x xs)
  then show ?case by (simp add: any_case_Cons conc_assoc)
qed

lemma any_case_self: "js cs \<in> any_case cs"
  by (simp add: any_case_def)

lemma space_not_letter: "is_space c \<Longrightarrow> c < 65 \<or> 122 < c"
  unfolding is_space_def by linarith

lemma upper_space_imp:
  assumes "upper c = upper d" "is_space c"
  shows "is_space d"
proof (cases "97 \<le> d \<and> d \<le> 122")
  case True
  from space_not_letter [OF assms(2)] have "upper c = c" by (auto simp: upper_def)
  with assms(1) True have "c = d - 32" by (simp add: upper_def)
  with True space_not_letter [OF assms(2)] show ?thesis by linarith
next
  case False
  from space_not_letter [OF assms(2)] have "upper c = c" by (auto simp: upper_def)
  with assms False show ?thesis by (simp add: upper_def)
qed


lemma any_case_no_space:
  assumes "t \<in> any_case cs" "no_space (js cs)"
  shows "no_space t"
proof -
  have "map upper t = map upper s \<Longrightarrow> no_space s \<Longrightarrow> no_space t" for s
  proof (induction t arbitrary: s)
    case Nil
    show ?case by (simp add: no_space_def)
  next
    case (Cons a t)
    then obtain b s' where s: "s = b # s'" "upper a = upper b" "map upper t = map upper s'"
      by (auto simp: Cons_eq_map_conv)
    with Cons.prems(2) have "\<not> is_space b" "no_space s'" by (auto simp: no_space_def)
    moreover from this(1) s(2) have "\<not> is_space a" using upper_space_imp [of a b] by blast
    ultimately show ?case using s Cons.IH [of s'] by (simp add: no_space_def)
  qed
  with assms show ?thesis by (simp add: any_case_def)
qed

lemma no_space_append: "no_space (u @ v) \<longleftrightarrow> no_space u \<and> no_space v"
  by (simp add: no_space_def)

subsection \<open>What the URL pattern denotes\<close>

lemma lang_scheme:
  "lang True (Opt (seqs [str ''http'', Opt (Lit 115), str ''://''])) = url_schemes"
proof -
  have s: "lang True (Lit 115) = any_case ''s''"
    by (simp add: any_case_Cons any_case_Nil conc_empty_right lit_eq_upper)
  have "lang True (seqs [str ''http'', Opt (Lit 115), str ''://'']) =
      conc (any_case ''http'') (conc ({[]} \<union> any_case ''s'') (any_case ''://''))"
    by (simp add: lang_seqs_Cons lang_seqs_Nil lang_str conc_empty_right s [symmetric])
  also have "\<dots> = conc (any_case ''http'') (any_case ''://'') \<union>
      conc (any_case ''http'') (conc (any_case ''s'') (any_case ''://''))"
    by (simp only: conc_Un_left conc_Un_right conc_empty_left)
  also have "\<dots> = any_case (''http'' @ ''://'') \<union> any_case (''http'' @ ''s'' @ ''://'')"
    by (simp only: any_case_append)
  finally show ?thesis by (simp add: url_schemes_def Un_assoc)
qed

lemma lang_www: "lang True (Opt (str ''www.'')) = url_www"
  by (simp add: lang_str url_www_def)

lemma lang_star_cls: "lang i (Star (Cls p)) = {x. list_all p x}"
proof (intro set_eqI iffI)
  fix x assume "x \<in> lang i (Star (Cls p))"
  then have "x \<in> star {[d] | d. p d}" by simp
  then show "x \<in> {x. list_all p x}" by (induction rule: star.induct) auto
next
  fix x assume "x \<in> {x. list_all p x}"
  then have "x \<in> star {[d] | d. p d}"
  proof (induction x)
    case Nil
    show ?case by (rule star.star_empty)
  next
    case (Cons a x)
    then have "[a] \<in> {[d] | d. p d}" "x \<in> star {[d] | d. p d}" by auto
    then have "[a] @ x \<in> star {[d] | d. p d}" by (rule star.star_step)
    then show ?case by simp
  qed
  then show "x \<in> lang i (Star (Cls p))" by simp
qed

text \<open>
  A non-empty run of code units that fulfil \<open>p\<close>, followed by any run without white space,
  is a rest that does not begin with the code unit that \<open>p\<close> excludes.
\<close>

lemma lang_rest:
  assumes "\<And>d. p d \<longleftrightarrow> \<not> is_space d \<and> d \<noteq> c"
  shows "conc (lang i (plus (Cls p))) (lang i (Star (Cls not_space))) = url_rest c"
proof (intro set_eqI iffI)
  fix x assume "x \<in> conc (lang i (plus (Cls p))) (lang i (Star (Cls not_space)))"
  then obtain y v where yv: "x = y @ v" "y \<in> lang i (plus (Cls p))" "v \<in> lang i (Star (Cls not_space))"
    by (elim concE)
  from yv(2) obtain d u where "y = [d] @ u" "[d] \<in> lang i (Cls p)" "u \<in> lang i (Star (Cls p))"
    unfolding plus_def lang_Seq by (elim concE) auto
  with yv have x: "x = (d # u) @ v" "p d" "list_all p u" "list_all not_space v"
    unfolding lang_star_cls by auto
  from x(3) assms have "list_all (\<lambda>c. \<not> is_space c) u" by (simp add: list_all_iff)
  moreover from x(4) have "list_all (\<lambda>c. \<not> is_space c) v"
    by (simp add: list_all_iff not_space_def)
  ultimately show "x \<in> url_rest c"
    using x assms by (simp add: url_rest_def no_space_def)
next
  fix x assume "x \<in> url_rest c"
  then obtain d u where x: "x = d # u" "\<not> is_space d" "d \<noteq> c" "list_all (\<lambda>c. \<not> is_space c) u"
    by (cases x) (auto simp: url_rest_def no_space_def)
  have "[d] @ [] \<in> conc (lang i (Cls p)) (lang i (Star (Cls p)))"
    using x assms by (intro concI) (auto intro: star.star_empty)
  then have "[d] \<in> lang i (plus (Cls p))"
    unfolding plus_def lang_Seq by simp
  moreover have "u \<in> lang i (Star (Cls not_space))"
    unfolding lang_star_cls using x by (simp add: not_space_def list_all_iff)
  ultimately have "[d] @ u \<in> conc (lang i (plus (Cls p))) (lang i (Star (Cls not_space)))"
    by (rule concI)
  with x show "x \<in> conc (lang i (plus (Cls p))) (lang i (Star (Cls not_space)))" by simp
qed

lemma lang_rest_qm:
  "conc (lang i (plus (Cls not_space_qm))) (lang i (Star (Cls not_space))) = url_rest 63"
  by (rule lang_rest) (simp add: not_space_qm_def)

lemma lang_rest_amp:
  "conc (lang i (plus (Cls not_space_amp))) (lang i (Star (Cls not_space))) = url_rest 38"
  by (rule lang_rest) (simp add: not_space_amp_def)

lemma lang_tail: "lang i (Opt (Star (Cls not_space))) = lang i (Star (Cls not_space))"
  by (auto intro: star.star_empty)

lemma lang_youtube_regex: "lang True youtube_regex = accepted_urls"
proof -
  let ?T = "lang True (Star (Cls not_space))"
  let ?Q = "lang True (plus (Cls not_space_qm))"
  let ?A = "lang True (plus (Cls not_space_amp))"
  have w: "conc (lang True (seqs [str ''watch?'', Star (Cls not_space), str ''v='',
        plus (Cls not_space_amp)])) ?T =
      conc (any_case ''watch?'') (conc {q. no_space q} (conc (any_case ''v='') (url_rest 38)))"
  proof -
    have "lang True (Star (Cls not_space)) = {q. no_space q}"
      unfolding lang_star_cls by (auto simp: no_space_def not_space_def list_all_iff)
    moreover have "conc (lang True (seqs [str ''watch?'', Star (Cls not_space), str ''v='',
        plus (Cls not_space_amp)])) ?T =
      conc (any_case ''watch?'') (conc ?T (conc (any_case ''v='') (url_rest 38)))"
      by (simp only: lang_seqs_Cons lang_seqs_Nil lang_str conc_empty_right conc_assoc
          lang_rest_amp)
    ultimately show ?thesis by (simp only:)
  qed
  have s: "conc (lang True (seqs [str ''shorts/'', plus (Cls not_space_qm)])) ?T =
      conc (any_case ''shorts/'') (url_rest 63)"
    by (simp only: lang_seqs_Cons lang_seqs_Nil lang_str conc_empty_right conc_assoc lang_rest_qm)
  have l: "conc (lang True (seqs [str ''live/'', plus (Cls not_space_qm)])) ?T =
      conc (any_case ''live/'') (url_rest 63)"
    by (simp only: lang_seqs_Cons lang_seqs_Nil lang_str conc_empty_right conc_assoc lang_rest_qm)
  have b: "conc (lang True (seqs [str ''youtu.be/'', plus (Cls not_space_qm)])) ?T =
      conc (any_case ''youtu.be/'') (url_rest 63)"
    by (simp only: lang_seqs_Cons lang_seqs_Nil lang_str conc_empty_right conc_assoc lang_rest_qm)
  have y: "conc (lang True (seqs [str ''youtube.com/'',
        Alt (seqs [str ''watch?'', Star (Cls not_space), str ''v='', plus (Cls not_space_amp)])
          (Alt (seqs [str ''shorts/'', plus (Cls not_space_qm)])
             (seqs [str ''live/'', plus (Cls not_space_qm)]))])) ?T =
      conc (any_case ''youtube.com/'')
        (conc (any_case ''watch?'') (conc {q. no_space q} (conc (any_case ''v='') (url_rest 38))) \<union>
         (conc (any_case ''shorts/'') (url_rest 63) \<union> conc (any_case ''live/'') (url_rest 63)))"
    unfolding lang_seqs_Cons [of True "str ''youtube.com/''"] lang_seqs_Cons [of True "Alt _ _"]
      lang_seqs_Nil conc_empty_right lang.simps(5) lang_str conc_assoc conc_Un_left w s l ..
  have site: "conc (any_case ''youtube.com/'')
        (conc (any_case ''watch?'') (conc {q. no_space q} (conc (any_case ''v='') (url_rest 38))) \<union>
         (conc (any_case ''shorts/'') (url_rest 63) \<union> conc (any_case ''live/'') (url_rest 63))) \<union>
      conc (any_case ''youtu.be/'') (url_rest 63) =
      conc watch_sites (url_rest 38) \<union> conc path_sites (url_rest 63)"
  proof -
    have 1: "conc (any_case ''youtube.com/'') (conc (any_case ''watch?'') X) =
        conc (any_case ''youtube.com/watch?'') X" for X
      using any_case_append [of "''youtube.com/''" "''watch?''"] by (simp add: conc_assoc)
    have 2: "conc (any_case ''youtube.com/'') (conc (any_case ''shorts/'') X) =
        conc (any_case ''youtube.com/shorts/'') X" for X
      using any_case_append [of "''youtube.com/''" "''shorts/''"] by (simp add: conc_assoc)
    have 3: "conc (any_case ''youtube.com/'') (conc (any_case ''live/'') X) =
        conc (any_case ''youtube.com/live/'') X" for X
      using any_case_append [of "''youtube.com/''" "''live/''"] by (simp add: conc_assoc)
    show ?thesis
      unfolding conc_Un_right 1 2 3 watch_sites_def path_sites_def conc_Un_left conc_assoc
      by blast
  qed
  have "lang True youtube_regex =
      conc url_schemes (conc url_www
        (conc (lang True
           (Alt (seqs [str ''youtube.com/'',
                   Alt (seqs [str ''watch?'', Star (Cls not_space), str ''v='',
                              plus (Cls not_space_amp)])
                     (Alt (seqs [str ''shorts/'', plus (Cls not_space_qm)])
                        (seqs [str ''live/'', plus (Cls not_space_qm)]))])
              (seqs [str ''youtu.be/'', plus (Cls not_space_qm)]))) ?T))"
    unfolding youtube_regex_def lang_seqs_Cons lang_seqs_Nil conc_empty_right lang_scheme lang_www
      lang_tail ..
  also have "\<dots> = conc url_schemes (conc url_www
      (conc watch_sites (url_rest 38) \<union> conc path_sites (url_rest 63)))"
    unfolding lang.simps(5) conc_Un_left y b site ..
  finally show ?thesis by (simp only: accepted_urls_def)
qed

lemma no_space_conc:
  assumes "\<And>u. u \<in> A \<Longrightarrow> no_space u" "\<And>v. v \<in> B \<Longrightarrow> no_space v" "w \<in> conc A B"
  shows "no_space w"
  using assms by (auto elim!: concE simp: no_space_append)

lemma accepted_no_space:
  assumes "u \<in> accepted_urls"
  shows "no_space u"
proof -
  have lit: "no_space (js ''http://'')" "no_space (js ''https://'')" "no_space (js ''www.'')"
    "no_space (js ''youtube.com/watch?'')" "no_space (js ''v='')" "no_space (js ''youtu.be/'')"
    "no_space (js ''youtube.com/shorts/'')" "no_space (js ''youtube.com/live/'')"
    by (simp_all add: no_space_def is_space_def js_def)
  have e: "no_space []" by (simp add: no_space_def)
  have 1: "no_space x" if "x \<in> url_schemes" for x
    using that e lit any_case_no_space unfolding url_schemes_def by blast
  have 2: "no_space x" if "x \<in> url_www" for x
    using that e lit any_case_no_space unfolding url_www_def by blast
  have 3: "no_space x" if "x \<in> url_rest c" for x c
    using that by (simp add: url_rest_def)
  have 4: "no_space x" if "x \<in> watch_sites" for x
  proof -
    have "no_space y" if "y \<in> conc {q. no_space q} (any_case ''v='')" for y
      using _ _ that by (rule no_space_conc) (auto intro: any_case_no_space lit)
    with that show ?thesis
      unfolding watch_sites_def by (elim no_space_conc [rotated 2]) (auto intro: any_case_no_space lit)
  qed
  have 5: "no_space x" if "x \<in> path_sites" for x
    using that lit any_case_no_space unfolding path_sites_def by blast
  have 6: "no_space x"
    if "x \<in> conc watch_sites (url_rest 38) \<union> conc path_sites (url_rest 63)" for x
    using that 3 4 5 no_space_conc [of watch_sites "url_rest 38" x]
      no_space_conc [of path_sites "url_rest 63" x] by blast
  have 7: "no_space x"
    if "x \<in> conc url_www (conc watch_sites (url_rest 38) \<union> conc path_sites (url_rest 63))" for x
    using _ _ that by (rule no_space_conc) (auto intro: 2 6)
  from _ _ assms [unfolded accepted_urls_def] show ?thesis
    by (rule no_space_conc) (auto intro: 1 7)
qed

subsection \<open>The extent of a match\<close>

lemma star_iter_nonempty: "star_iter f n s \<noteq> []"
  by (cases n) auto

lemma star_cls_hd:
  "length s \<le> n \<Longrightarrow> hd (star_iter (\<lambda>t. matches i (Cls p) t) n s) = dropWhile p s"
proof (induction n arbitrary: s)
  case 0
  then show ?case by simp
next
  case (Suc n)
  show ?case
  proof (cases s)
    case Nil
    then show ?thesis by simp
  next
    case (Cons c cs)
    with Suc.prems have "length cs \<le> n" by simp
    from Suc.IH [OF this] star_iter_nonempty [of "\<lambda>t. matches i (Cls p) t" n cs] Cons
    show ?thesis by simp
  qed
qed

text \<open>
  The optional greedy tail \<^verbatim>\<open>(?:[^\s]*)?\<close> always matches, and first with the longest run
  without white space.
\<close>

lemma tail_hd:
  "matches i (Opt (Star (Cls p))) s \<noteq> [] \<and> hd (matches i (Opt (Star (Cls p))) s) = dropWhile p s"
proof (cases s)
  case Nil
  then show ?thesis by simp
next
  case (Cons c cs)
  show ?thesis
  proof (cases "p c")
    case False
    with Cons show ?thesis by simp
  next
    case True
    define F where "F = (\<lambda>t. matches i (Cls p) t)"
    define xs where "xs = star_iter F (length cs) cs"
    have h: "hd xs = dropWhile p cs" unfolding xs_def F_def by (rule star_cls_hd) simp
    have n: "xs \<noteq> []" unfolding xs_def by (rule star_iter_nonempty)
    have Fc: "F (c # cs) = [cs]" using True by (simp add: F_def)
    have m: "matches i (Opt (Star (Cls p))) s =
        filter (\<lambda>t. length t < length s) (star_iter F (length s) s) @ [s]"
      unfolding F_def by (simp only: matches.simps)
    have "length (dropWhile p cs) \<le> length cs" by (rule length_dropWhile_le)
    with h n have "filter (\<lambda>t. length t < Suc (length cs)) xs =
        dropWhile p cs # filter (\<lambda>t. length t < Suc (length cs)) (tl xs)"
      by (cases xs) auto
    then show ?thesis
      using True by (simp only: m) (simp add: Cons Fc xs_def [symmetric])
  qed
qed

lemma hd_concat_map:
  "concat (map f xs) \<noteq> [] \<Longrightarrow> \<exists>x \<in> set xs. f x \<noteq> [] \<and> hd (concat (map f xs)) = hd (f x)"
proof (induction xs)
  case Nil
  then show ?case by simp
next
  case (Cons a xs)
  show ?case
  proof (cases "f a = []")
    case True
    with Cons show ?thesis by auto
  next
    case False
    then show ?thesis by auto
  qed
qed

lemma seq_hd:
  assumes "matches i (Seq a b) s \<noteq> []"
  shows "\<exists>t \<in> set (matches i a s). matches i b t \<noteq> [] \<and>
           hd (matches i (Seq a b) s) = hd (matches i b t)"
  using hd_concat_map [of "\<lambda>t. matches i b t" "matches i a s"] assms by simp

lemma matches_suffix: "t \<in> set (matches i r s) \<Longrightarrow> \<exists>u. s = u @ t"
  by (auto simp: matches_rests rests_def)

lemma seqs4_hd:
  assumes "matches i (seqs [a, b, c, Opt (Star (Cls p))]) s \<noteq> []"
  shows "\<exists>u t. s = u @ t \<and> hd (matches i (seqs [a, b, c, Opt (Star (Cls p))]) s) = dropWhile p t"
proof -
  let ?d = "Seq (Opt (Star (Cls p))) Eps"
  have d: "matches i ?d t = matches i (Opt (Star (Cls p))) t" for t
  proof -
    have "concat (map (\<lambda>x. matches i Eps x) xs) = xs" for xs
      by (induction xs) auto
    then show ?thesis by (simp only: matches.simps(4))
  qed
  have e: "seqs [a, b, c, Opt (Star (Cls p))] = Seq a (Seq b (Seq c ?d))"
    by (simp add: seqs_def)
  from assms obtain t1 where t1: "t1 \<in> set (matches i a s)" "matches i (Seq b (Seq c ?d)) t1 \<noteq> []"
    "hd (matches i (Seq a (Seq b (Seq c ?d))) s) = hd (matches i (Seq b (Seq c ?d)) t1)"
    unfolding e using seq_hd [of i a "Seq b (Seq c ?d)" s] by blast
  from t1(2) obtain t2 where t2: "t2 \<in> set (matches i b t1)" "matches i (Seq c ?d) t2 \<noteq> []"
    "hd (matches i (Seq b (Seq c ?d)) t1) = hd (matches i (Seq c ?d) t2)"
    using seq_hd [of i b "Seq c ?d" t1] by blast
  from t2(2) obtain t3 where t3: "t3 \<in> set (matches i c t2)"
    "hd (matches i (Seq c ?d) t2) = hd (matches i ?d t3)"
    using seq_hd [of i c ?d t2] by blast
  from matches_suffix [OF t1(1)] matches_suffix [OF t2(1)] matches_suffix [OF t3(1)]
  obtain u where "s = u @ t3" by auto
  moreover have "hd (matches i (seqs [a, b, c, Opt (Star (Cls p))]) s) = dropWhile p t3"
    unfolding e t1(3) t2(3) t3(2) d using tail_hd [of i p t3] by simp
  ultimately show ?thesis by blast
qed

text \<open>A match of the URL pattern runs to the next white space or to the end of the text.\<close>

lemma match_here_extent:
  assumes "match_here True youtube_regex s = Some n"
  shows "take n s = takeWhile (\<lambda>c. \<not> is_space c) s"
proof -
  have ns: "not_space = (\<lambda>c. \<not> is_space c)" by (rule ext) (simp add: not_space_def)
  from assms obtain t ts where m: "matches True youtube_regex s = t # ts"
    and n: "n = length s - length t"
    by (auto simp: match_here_def split: list.splits)
  from m have "matches True youtube_regex s \<noteq> []" by simp
  from seqs4_hd [OF this [unfolded youtube_regex_def]]
  obtain u t3 where s: "s = u @ t3" and "hd (matches True youtube_regex s) = dropWhile not_space t3"
    unfolding youtube_regex_def [symmetric] by blast
  with m have t: "t = dropWhile (\<lambda>c. \<not> is_space c) t3"
    by (simp add: ns)
  have s': "s = (u @ takeWhile (\<lambda>c. \<not> is_space c) t3) @ t"
    unfolding s t by simp
  then have k: "take n s = u @ takeWhile (\<lambda>c. \<not> is_space c) t3"
    using n by (metis append_eq_conv_conj diff_add_inverse2 length_append)
  from match_here_Some [OF assms] have "take n s \<in> accepted_urls"
    by (simp add: lang_youtube_regex)
  then have "no_space u" unfolding k by (auto dest: accepted_no_space simp: no_space_append)
  then have "takeWhile (\<lambda>c. \<not> is_space c) (u @ t3) = u @ takeWhile (\<lambda>c. \<not> is_space c) t3"
    by (intro takeWhile_append2) (simp add: no_space_def list_all_iff)
  with k s show ?thesis by simp
qed

subsection \<open>Claims about \<^verbatim>\<open>extractYouTubeUrl\<close>\<close>

lemmas re_eval = match_first_def match_here_def youtube_regex_def seqs_def str_def plus_def
  lit_eq_def canonicalize_def not_space_def not_space_amp_def not_space_qm_def is_space_def js_def
  extractYouTubeUrl_def

lemma extractYouTubeUrl_None: "extractYouTubeUrl t = None \<longleftrightarrow> \<not> occurs accepted_urls t"
  by (simp add: extractYouTubeUrl_def match_first_None lang_youtube_regex)

lemma run_takeWhile:
  assumes "no_space u" "post = [] \<or> is_space (hd post)"
  shows "takeWhile (\<lambda>c. \<not> is_space c) (u @ post) = u"
proof -
  from assms(1) have "takeWhile (\<lambda>c. \<not> is_space c) (u @ post) =
      u @ takeWhile (\<lambda>c. \<not> is_space c) post"
    by (intro takeWhile_append2) (simp add: no_space_def list_all_iff)
  moreover from assms(2) have "takeWhile (\<lambda>c. \<not> is_space c) post = []"
    by (cases post) auto
  ultimately show ?thesis by simp
qed

lemma extractYouTubeUrl_Some:
  assumes "extractYouTubeUrl t = Some u"
  shows "\<exists>pre post. t = pre @ u @ post \<and> u \<in> accepted_urls \<and> leftmost accepted_urls pre t \<and>
           no_space u \<and> (post = [] \<or> is_space (hd post))"
proof -
  from assms obtain k n where kn: "search True youtube_regex t = Some (k, n)"
    and u: "u = take n (drop k t)"
    by (auto simp: extractYouTubeUrl_def match_first_def split: option.splits)
  from search_leftmost [OF kn]
  have l: "u \<in> accepted_urls" and dec: "t = take k t @ u @ drop (k + n) t"
    and lm: "leftmost accepted_urls (take k t) t"
    by (simp_all add: u lang_youtube_regex)
  from match_here_extent [OF search_here [OF kn]]
  have e: "u = takeWhile (\<lambda>c. \<not> is_space c) (drop k t)" by (simp add: u)
  have "drop (k + n) t = drop n (drop k t)" by (simp add: add.commute)
  also have "\<dots> = drop (length u) (drop k t)"
  proof -
    from search_Some [OF kn] have "k + n \<le> length t" by simp
    then have "length u = n" by (simp add: u)
    then show ?thesis by simp
  qed
  also have "\<dots> = dropWhile (\<lambda>c. \<not> is_space c) (drop k t)"
    unfolding e by (simp add: dropWhile_eq_drop)
  finally have p: "drop (k + n) t = dropWhile (\<lambda>c. \<not> is_space c) (drop k t)" .
  have "drop (k + n) t = [] \<or> is_space (hd (drop (k + n) t))"
    unfolding p using hd_dropWhile [of "\<lambda>c. \<not> is_space c" "drop k t"] by blast
  with dec l lm accepted_no_space [OF l] show ?thesis by blast
qed

text \<open>The description determines the result.\<close>

lemma extractYouTubeUrl_unique:
  assumes "t = pre @ u @ post" "u \<in> accepted_urls" "leftmost accepted_urls pre t"
    "no_space u" "post = [] \<or> is_space (hd post)"
  shows "extractYouTubeUrl t = Some u"
proof -
  from assms(1,2) have "occurs accepted_urls t" unfolding occurs_def by blast
  then obtain u' where r: "extractYouTubeUrl t = Some u'"
    using extractYouTubeUrl_None [of t] by (cases "extractYouTubeUrl t") auto
  from extractYouTubeUrl_Some [OF r] obtain pre' post' where d: "t = pre' @ u' @ post'"
    "u' \<in> accepted_urls" "leftmost accepted_urls pre' t" "no_space u'"
    "post' = [] \<or> is_space (hd post')" by blast
  from assms(3) d(1,2) have "length pre \<le> length pre'" unfolding leftmost_def by blast
  moreover from d(3) assms(1,2) have "length pre' \<le> length pre" unfolding leftmost_def by blast
  ultimately have "u @ post = u' @ post'"
    using assms(1) d(1) by (auto simp: append_eq_append_conv)
  with run_takeWhile [OF assms(4,5)] run_takeWhile [OF d(4,5)] have "u = u'" by simp
  with r show ?thesis by simp
qed

lemma url_shapes_sub: "url_shapes \<subseteq> accepted_urls"
proof
  fix w assume "w \<in> url_shapes"
  then obtain a b c x where w: "w = a @ b @ c @ x" and a: "a \<in> url_schemes" and b: "b \<in> url_www"
    and c: "c \<in> url_sites" and x: "video_id x"
    unfolding url_shapes_def by (auto elim!: concE)
  from x have x38: "x \<in> url_rest 38" and x63: "x \<in> url_rest 63"
    by (simp_all add: video_id_def url_rest_def)
  have "c @ x \<in> conc watch_sites (url_rest 38) \<union> conc path_sites (url_rest 63)"
  proof (cases "c \<in> path_sites")
    case True
    with x63 show ?thesis by (auto intro: concI)
  next
    case False
    with c have "c \<in> any_case (''youtube.com/watch?'' @ ''v='')"
      by (auto simp: url_sites_def path_sites_def)
    then obtain h v where hv: "c = h @ v" "h \<in> any_case ''youtube.com/watch?''" "v \<in> any_case ''v=''"
      unfolding any_case_append by (elim concE)
    have "[] \<in> {q. no_space q}" by (simp add: no_space_def)
    from this hv(3) have "[] @ v \<in> conc {q. no_space q} (any_case ''v='')"
      by (rule concI)
    with hv(2) have "h @ [] @ v \<in> watch_sites"
      unfolding watch_sites_def by (rule concI)
    with hv(1) have "c \<in> watch_sites" by simp
    with x38 show ?thesis by (auto intro: concI)
  qed
  with a b have "a @ b @ c @ x \<in> accepted_urls"
    unfolding accepted_urls_def by (intro concI)
  with w show "w \<in> accepted_urls" by simp
qed

lemma url_shape_found:
  assumes "u \<in> url_shapes"
  shows "extractYouTubeUrl (pre @ u @ post) \<noteq> None"
proof -
  from assms url_shapes_sub have "u \<in> accepted_urls" by blast
  then have "occurs accepted_urls (pre @ u @ post)" unfolding occurs_def by blast
  then show ?thesis by (simp add: extractYouTubeUrl_None)
qed

lemma occurs_Un: "occurs (A \<union> B) s \<longleftrightarrow> occurs A s \<or> occurs B s"
  unfolding occurs_def by blast

lemma occurs_any_case:
  assumes "occurs (any_case cs) s"
  shows "js_includes (map upper s) (map upper (js cs))"
proof -
  from assms obtain pre u post where "s = pre @ u @ post" "map upper u = map upper (js cs)"
    unfolding occurs_def any_case_def by blast
  then have "map upper s = map upper pre @ map upper (js cs) @ map upper post" by simp
  then show ?thesis by (simp only: js_includes_middle)
qed

lemma occurs_shape_site:
  assumes "occurs url_shapes s"
  shows "occurs url_sites s"
proof -
  from assms obtain pre w post where s: "s = pre @ w @ post" and "w \<in> url_shapes"
    unfolding occurs_def by blast
  then obtain a b c x where "w = a @ b @ c @ x" "c \<in> url_sites"
    unfolding url_shapes_def by (auto elim!: concE)
  with s have "s = (pre @ a @ b) @ c @ (x @ post)" "c \<in> url_sites" by simp_all
  then show ?thesis unfolding occurs_def by blast
qed

lemma url_examples:
  "extractYouTubeUrl (js ''see https://youtu.be/abc now'') = Some (js ''https://youtu.be/abc'')"
  "extractYouTubeUrl (js ''youtube.com/watch?v=abc&list=PL1 from 1:20'') =
     Some (js ''youtube.com/watch?v=abc&list=PL1'')"
  "extractYouTubeUrl (js ''WWW.YouTube.com/Shorts/xyz'') = Some (js ''WWW.YouTube.com/Shorts/xyz'')"
  "extractYouTubeUrl (js ''http://www.youtube.com/live/q1?t=5'') =
     Some (js ''http://www.youtube.com/live/q1?t=5'')"
  "extractYouTubeUrl (js ''see youtu.be/?t=5 now'') = None"
  "extractYouTubeUrl (js ''no link here'') = None"
  by (simp_all add: re_eval)

lemma watch_query_example:
  "extractYouTubeUrl (js ''youtube.com/watch?list=PL1&v=abc'') =
     Some (js ''youtube.com/watch?list=PL1&v=abc'')"
  by (simp add: re_eval)

text \<open>
  C8, amended. \<^verbatim>\<open>extractYouTubeUrl\<close> is a function of the text alone. It returns \<^verbatim>\<open>null\<close>
  exactly when no accepted URL occurs in the text. Otherwise it returns a substring of the
  text, as it stands there: it begins at the first place where an accepted URL begins, it
  is an accepted URL, and it runs to the next white space or to the end of the text; this
  determines the result. The accepted URLs are what the pattern of the source denotes.
  Each of the four known shapes, with or without scheme and \<^verbatim>\<open>www.\<close>, is accepted, so a
  text that contains one of them yields a URL.
\<close>

theorem extractYouTubeUrl_first_match:
  "(extractYouTubeUrl t = None \<longleftrightarrow> \<not> occurs accepted_urls t) \<and>
   (\<forall>u. extractYouTubeUrl t = Some u \<longrightarrow>
      (\<exists>pre post. t = pre @ u @ post \<and> u \<in> accepted_urls \<and> leftmost accepted_urls pre t \<and>
         no_space u \<and> (post = [] \<or> is_space (hd post)))) \<and>
   (\<forall>pre u post. t = pre @ u @ post \<and> u \<in> accepted_urls \<and> leftmost accepted_urls pre t \<and>
        no_space u \<and> (post = [] \<or> is_space (hd post)) \<longrightarrow>
      extractYouTubeUrl t = Some u) \<and>
   lang True youtube_regex = accepted_urls \<and>
   url_shapes \<subseteq> accepted_urls \<and>
   (\<forall>u pre post. u \<in> url_shapes \<longrightarrow> extractYouTubeUrl (pre @ u @ post) \<noteq> None)"
proof -
  have 2: "\<forall>u. extractYouTubeUrl t = Some u \<longrightarrow>
      (\<exists>pre post. t = pre @ u @ post \<and> u \<in> accepted_urls \<and> leftmost accepted_urls pre t \<and>
         no_space u \<and> (post = [] \<or> is_space (hd post)))"
    using extractYouTubeUrl_Some [of t] by (intro allI impI)
  have 3: "\<forall>pre u post. t = pre @ u @ post \<and> u \<in> accepted_urls \<and> leftmost accepted_urls pre t \<and>
        no_space u \<and> (post = [] \<or> is_space (hd post)) \<longrightarrow>
      extractYouTubeUrl t = Some u"
    using extractYouTubeUrl_unique [of t] by (intro allI impI) (elim conjE)
  have 6: "\<forall>u pre post. u \<in> url_shapes \<longrightarrow> extractYouTubeUrl (pre @ u @ post) \<noteq> None"
    using url_shape_found by (intro allI impI)
  show ?thesis
    by (rule conjI [OF extractYouTubeUrl_None conjI [OF 2 conjI [OF 3
          conjI [OF lang_youtube_regex conjI [OF url_shapes_sub 6]]]]])
qed

theorem extractYouTubeUrl_first_match_witness:
  "extractYouTubeUrl (js ''see https://youtu.be/abc now'') = Some (js ''https://youtu.be/abc'') \<and>
   js ''https://youtu.be/abc'' \<in> accepted_urls \<and>
   no_space (js ''https://youtu.be/abc'') \<and>
   js ''https://youtu.be/abc'' \<in> url_shapes \<and>
   extractYouTubeUrl (js ''see '' @ js ''https://youtu.be/abc'' @ js '' now'') \<noteq> None \<and>
   extractYouTubeUrl (js ''youtube.com/watch?v=abc&list=PL1 from 1:20'') =
     Some (js ''youtube.com/watch?v=abc&list=PL1'') \<and>
   extractYouTubeUrl (js ''see youtu.be/?t=5 now'') = None \<and>
   \<not> occurs accepted_urls (js ''see youtu.be/?t=5 now'') \<and>
   extractYouTubeUrl (js ''no link here'') = None \<and>
   \<not> occurs accepted_urls (js ''no link here'')"
proof -
  note t1 = extractYouTubeUrl_first_match [of "js ''see https://youtu.be/abc now''"]
  from t1 [THEN conjunct2, THEN conjunct1, rule_format, OF url_examples(1)]
  obtain pre post where d: "js ''see https://youtu.be/abc now'' = pre @ js ''https://youtu.be/abc'' @ post \<and>
      js ''https://youtu.be/abc'' \<in> accepted_urls \<and>
      leftmost accepted_urls pre (js ''see https://youtu.be/abc now'') \<and>
      no_space (js ''https://youtu.be/abc'') \<and> (post = [] \<or> is_space (hd post))"
    by blast
  then have 1: "js ''https://youtu.be/abc'' \<in> accepted_urls"
    and 0: "no_space (js ''https://youtu.be/abc'')" by simp_all
  from t1 [THEN conjunct2, THEN conjunct2, THEN conjunct1, rule_format, OF d]
  have r: "extractYouTubeUrl (js ''see https://youtu.be/abc now'') = Some (js ''https://youtu.be/abc'')" .
  have e: "[] \<in> url_www" "js ''https://'' \<in> url_schemes" "js ''youtu.be/'' \<in> url_sites"
    "js ''abc'' \<in> {x. video_id x}"
    by (simp_all add: url_www_def url_schemes_def url_sites_def any_case_self)
       (simp add: video_id_def no_space_def is_space_def js_def)
  have "js ''https://'' @ [] @ js ''youtu.be/'' @ js ''abc'' \<in> url_shapes"
    unfolding url_shapes_def by (intro concI e)
  then have 2: "js ''https://youtu.be/abc'' \<in> url_shapes" by (simp add: js_def)
  from t1 [THEN conjunct2, THEN conjunct2, THEN conjunct2, THEN conjunct2, THEN conjunct2,
      rule_format, OF 2]
  have 3: "extractYouTubeUrl (js ''see '' @ js ''https://youtu.be/abc'' @ js '' now'') \<noteq> None" .
  from extractYouTubeUrl_first_match [of "js ''see youtu.be/?t=5 now''", THEN conjunct1]
    url_examples(5)
  have 4: "\<not> occurs accepted_urls (js ''see youtu.be/?t=5 now'')" by simp
  from extractYouTubeUrl_first_match [of "js ''no link here''", THEN conjunct1] url_examples(6)
  have 5: "\<not> occurs accepted_urls (js ''no link here'')" by simp
  from r 1 0 2 3 url_examples(2,5) 4 url_examples(6) 5 show ?thesis by (intro conjI)
qed

text \<open>
  C8 as stated fails: in this text the watch link carries another parameter before
  \<^verbatim>\<open>v=\<close>. None of \<^verbatim>\<open>youtube.com/watch?v=\<close>, \<^verbatim>\<open>youtu.be/\<close>, \<^verbatim>\<open>youtube.com/shorts/\<close> and
  \<^verbatim>\<open>youtube.com/live/\<close> occurs in it, in any case of the letters, so it contains none of the
  four shapes; yet the function returns the link.
\<close>

theorem watch_query_counterexample:
  "extractYouTubeUrl (js ''youtube.com/watch?list=PL1&v=abc'') =
     Some (js ''youtube.com/watch?list=PL1&v=abc'') \<and>
   \<not> occurs url_sites (js ''youtube.com/watch?list=PL1&v=abc'') \<and>
   \<not> occurs url_shapes (js ''youtube.com/watch?list=PL1&v=abc'')"
proof -
  have n: "\<not> js_includes (map upper (js ''youtube.com/watch?list=PL1&v=abc''))
      (map upper (js ''youtube.com/watch?v=''))"
    "\<not> js_includes (map upper (js ''youtube.com/watch?list=PL1&v=abc''))
      (map upper (js ''youtu.be/''))"
    "\<not> js_includes (map upper (js ''youtube.com/watch?list=PL1&v=abc''))
      (map upper (js ''youtube.com/shorts/''))"
    "\<not> js_includes (map upper (js ''youtube.com/watch?list=PL1&v=abc''))
      (map upper (js ''youtube.com/live/''))"
    by (simp_all add: upper_def js_def)
  then have 1: "\<not> occurs url_sites (js ''youtube.com/watch?list=PL1&v=abc'')"
    unfolding url_sites_def occurs_Un using occurs_any_case by blast
  then have 2: "\<not> occurs url_shapes (js ''youtube.com/watch?list=PL1&v=abc'')"
    using occurs_shape_site by blast
  from watch_query_example 1 2 show ?thesis by (intro conjI)
qed

section \<open>Properties of the handlers\<close>

subsection \<open>Total seconds of canonical timestamps\<close>

lemma js_round_nat: "n \<le> 9007199254740992 \<Longrightarrow> js_round fp (of_nat n) = Fin (of_nat n)"
  by (simp add: js_round_def safe_integer_of_nat)

lemma digit_not_colon: "is_digit c \<Longrightarrow> c \<noteq> 58"
  by (auto simp: is_digit_def)

lemma clock_digits:
  assumes "k < 100"
  shows "is_digit (48 + k div 10)" "is_digit (48 + k mod 10)"
    "dec_value [48 + k div 10, 48 + k mod 10] = k"
proof -
  from assms have "k div 10 < 10" "k mod 10 < 10" by auto
  then show "is_digit (48 + k div 10)" "is_digit (48 + k mod 10)"
    unfolding is_digit_def by linarith+
  show "dec_value [48 + k div 10, 48 + k mod 10] = k"
    by (simp add: dec_value_def)
qed

lemma toSeconds_clock:
  assumes "h < 100" "m < 100" "s < 100"
  shows "toSeconds fp (clock h m s) = Fin (of_nat (h * 3600 + m * 60 + s))"
proof -
  note dh = clock_digits [OF assms(1)] and dm = clock_digits [OF assms(2)]
    and ds = clock_digits [OF assms(3)]
  have sp: "split_on (\<lambda>c. c = 58) (clock h m s) =
      [[48 + h div 10, 48 + h mod 10], [48 + m div 10, 48 + m mod 10],
       [48 + s div 10, 48 + s mod 10]]"
    using dh(1,2) dm(1,2) ds(1,2) by (simp add: clock_def digit_not_colon)
  have num: "Number fp [a, b] = Fin (of_nat (dec_value [a, b]))" if "is_digit a" "is_digit b" for a b
    using that by (intro Number_digits15) auto
  have r: "js_round fp q = Fin q" if "q = of_nat n" "n \<le> 9007199254740992" for q n
    using that js_round_nat [of n fp] by simp
  have 1: "js_round fp (of_nat h * 3600) = Fin (of_nat h * 3600)"
    using assms by (intro r [where n = "h * 3600"]) auto
  have 2: "js_round fp (of_nat m * 60) = Fin (of_nat m * 60)"
    using assms by (intro r [where n = "m * 60"]) auto
  have 3: "js_round fp (of_nat h * 3600 + of_nat m * 60) = Fin (of_nat h * 3600 + of_nat m * 60)"
    using assms by (intro r [where n = "h * 3600 + m * 60"]) auto
  have 4: "js_round fp (of_nat h * 3600 + of_nat m * 60 + of_nat s) =
      Fin (of_nat h * 3600 + of_nat m * 60 + of_nat s)"
    using assms by (intro r [where n = "h * 3600 + m * 60 + s"]) auto
  show ?thesis
    unfolding toSeconds_def sp
    by (simp add: element_def num dh dm ds 1 2 3 4 Let_def)
qed

lemma valid_clock:
  assumes "valid_hhmmss x"
  shows "\<exists>h m s. h < 100 \<and> m \<le> 59 \<and> s \<le> 59 \<and> x = clock h m s"
proof -
  from assms obtain h1 h2 m1 m2 s1 s2 where x: "x = [h1, h2, 58, m1, m2, 58, s1, s2]"
    and d: "is_digit h1" "is_digit h2" "is_digit m1" "is_digit m2" "is_digit s1" "is_digit s2"
    and b: "dec_value [m1, m2] \<le> 59" "dec_value [s1, s2] \<le> 59"
    unfolding valid_hhmmss_def by (auto split: list.splits)
  have c: "dec_value [a, b] < 100 \<and> 48 + dec_value [a, b] div 10 = a \<and>
      48 + dec_value [a, b] mod 10 = b" if "is_digit a" "is_digit b" for a b
  proof -
    define p q where "p = a - 48" and "q = b - 48"
    with that have pq: "a = 48 + p" "b = 48 + q" "p < 10" "q < 10"
      by (auto simp: is_digit_def)
    have "dec_value [a, b] = 10 * p + q" by (simp add: dec_value_def pq)
    with pq show ?thesis by simp
  qed
  have "x = clock (dec_value [h1, h2]) (dec_value [m1, m2]) (dec_value [s1, s2])"
    using c [OF d(1,2)] c [OF d(3,4)] c [OF d(5,6)] by (simp add: x clock_def)
  with c [OF d(1,2)] b show ?thesis by blast
qed

lemma toSeconds_valid:
  assumes "valid_hhmmss x"
  shows "\<exists>n. toSeconds fp x = Fin (of_nat n)"
proof -
  from valid_clock [OF assms] obtain h m s where "h < 100" "m \<le> 59" "s \<le> 59" "x = clock h m s"
    by blast
  then have "toSeconds fp x = Fin (of_nat (h * 3600 + m * 60 + s))"
    using toSeconds_clock [of h m s fp] by simp
  then show ?thesis by blast
qed

lemma order_text_echo:
  "order_text start end =
     order_head @ (js ''You sent: '' @ start @ [32, 8594, 32] @ end) @ [10, 10] @
       js ''Please try again.''"
  by (simp add: order_text_def arrow_def js_def)

lemma ge_iff_not_lt:
  assumes "valid_hhmmss a" "valid_hhmmss b"
  shows "js_ge (toSeconds fp a) (toSeconds fp b) \<longleftrightarrow> \<not> js_lt (toSeconds fp a) (toSeconds fp b)"
  using toSeconds_valid [OF assms(1), of fp] toSeconds_valid [OF assms(2), of fp]
  by (auto simp: js_ge_def)

lemma on_message_both:
  assumes "msg_text msg = Some raw" "raw \<noteq> []"
    and "truthy (extractYouTubeUrl (trim raw)) = Some u"
    and "extractTimestamps fp (trim raw) = Some ts"
  shows "on_message fp msg w =
           (if js_lt (toSeconds fp (startTime ts)) (toSeconds fp (endTime ts))
            then send (SendMessage (msg_chat msg) (prompt_text u (startTime ts) (endTime ts))
                         (InlineKeyboard format_keyboard))
                   (w\<lparr>pendingRequests := (pendingRequests w)
                        (msg_chat msg \<mapsto> \<lparr>startTime = startTime ts, endTime = endTime ts,
                                           url = u\<rparr>)\<rparr>)
            else send (SendMessage (msg_chat msg) (order_text (startTime ts) (endTime ts)) Plain) w)"
proof -
  from extractTimestamps_valid [OF assms(4)]
  have "js_ge (toSeconds fp (startTime ts)) (toSeconds fp (endTime ts)) \<longleftrightarrow>
        \<not> js_lt (toSeconds fp (startTime ts)) (toSeconds fp (endTime ts))"
    by (intro ge_iff_not_lt) auto
  with assms show ?thesis
    by (simp add: on_message_def truthy_def Let_def)
qed

lemma lt_starts_before:
  assumes "valid_hhmmss a" "valid_hhmmss b" "js_lt (toSeconds fp a) (toSeconds fp b)"
  shows "starts_before \<lparr>startTime = a, endTime = b, url = u\<rparr>"
proof -
  from valid_clock [OF assms(1)] obtain h m s where a: "h < 100" "m \<le> 59" "s \<le> 59" "a = clock h m s"
    by blast
  from valid_clock [OF assms(2)] obtain h' m' s' where b: "h' < 100" "m' \<le> 59" "s' \<le> 59"
    "b = clock h' m' s'" by blast
  from a have 1: "toSeconds fp a = Fin (of_nat (h * 3600 + m * 60 + s))"
    by (simp add: toSeconds_clock)
  from b have 2: "toSeconds fp b = Fin (of_nat (h' * 3600 + m' * 60 + s'))"
    by (simp add: toSeconds_clock)
  from assms(3) have lt: "h * 3600 + m * 60 + s < h' * 3600 + m' * 60 + s'"
    unfolding 1 2 by (simp only: js_lt.simps of_nat_less_iff)
  show ?thesis
    unfolding starts_before_def
    by (rule exI [of _ h], rule exI [of _ m], rule exI [of _ s], rule exI [of _ h'],
        rule exI [of _ m'], rule exI [of _ s']) (use a b lt in simp)
qed

lemma on_message_store:
  "pendingRequests (on_message fp msg w) = pendingRequests w \<or>
   (\<exists>r. ordered fp r \<and> starts_before r \<and>
      pendingRequests (on_message fp msg w) = (pendingRequests w)(msg_chat msg \<mapsto> r))"
proof (cases "truthy (msg_text msg)")
  case None
  then show ?thesis by (simp add: on_message_def)
next
  case (Some raw)
  then have raw: "msg_text msg = Some raw" "raw \<noteq> []"
    by (auto simp: truthy_def split: option.splits if_splits)
  show ?thesis
  proof (cases "truthy (extractYouTubeUrl (trim raw))")
    case None
    with Some show ?thesis
      by (auto simp: on_message_def send_def Let_def split: option.splits)
  next
    case u: (Some u)
    show ?thesis
    proof (cases "extractTimestamps fp (trim raw)")
      case None
      with Some u show ?thesis by (simp add: on_message_def send_def Let_def)
    next
      case ts: (Some ts)
      show ?thesis
      proof (cases "js_lt (toSeconds fp (startTime ts)) (toSeconds fp (endTime ts))")
        case True
        then have "ordered fp \<lparr>startTime = startTime ts, endTime = endTime ts, url = u\<rparr>"
          by (simp add: ordered_def)
        moreover have "starts_before \<lparr>startTime = startTime ts, endTime = endTime ts, url = u\<rparr>"
          using extractTimestamps_valid [OF ts] True by (intro lt_starts_before) auto
        moreover have "pendingRequests (on_message fp msg w) = (pendingRequests w)
            (msg_chat msg \<mapsto> \<lparr>startTime = startTime ts, endTime = endTime ts, url = u\<rparr>)"
          unfolding on_message_both [OF raw u ts] using True by (simp add: send_def)
        ultimately show ?thesis by blast
      next
        case False
        then show ?thesis unfolding on_message_both [OF raw u ts] by (simp add: send_def)
      qed
    qed
  qed
qed

lemma on_message_store_ok: "store_ok fp w \<Longrightarrow> store_ok fp (on_message fp msg w)"
  using on_message_store [of fp msg w] unfolding store_ok_def by (auto split: if_splits)

lemma runCommand_store: "pendingRequests (snd (runCommand tool cmd args w)) = pendingRequests w"
  by (simp add: runCommand_def send_def split: prod.splits)

lemma download_stage_store: "pendingRequests (snd (download_stage e c w)) = pendingRequests w"
proof -
  have "pendingRequests (snd (runCommand (yt_dlp e) (js ''yt-dlp'') (ytdlpArgs e c)
            (updateStatus c status_downloading w))) = pendingRequests w"
    by (simp add: runCommand_store) (simp add: updateStatus_def send_def)
  then show ?thesis
    by (auto simp: download_stage_def Let_def split: prod.splits option.splits)
qed

lemma cut_stage_store: "pendingRequests (snd (cut_stage e c a w)) = pendingRequests w"
  by (simp add: cut_stage_def Let_def runCommand_store) (simp add: updateStatus_def send_def)

lemma upload_stage_store: "pendingRequests (snd (upload_stage e c w)) = pendingRequests w"
  by (simp add: upload_stage_def Let_def updateStatus_def send_def split: option.splits)

lemma size_check_stage_store: "pendingRequests (snd (size_check_stage e c w)) = pendingRequests w"
  by (simp add: size_check_stage_def upload_stage_store updateStatus_def send_def split: sum.splits)

lemma try_block_store: "pendingRequests (snd (try_block e c w)) = pendingRequests w"
proof (cases "download_stage e c w")
  case (Pair r w1)
  then have w1: "pendingRequests w1 = pendingRequests w"
    using download_stage_store [of e c w] by simp
  show ?thesis
  proof (cases r)
    case (Inl m)
    with Pair w1 show ?thesis by (simp add: try_block_def)
  next
    case (Inr a)
    obtain r2 w2 where c2: "cut_stage e c a w1 = (r2, w2)" by (cases "cut_stage e c a w1")
    then have w2: "pendingRequests w2 = pendingRequests w"
      using cut_stage_store [of e c a w1] w1 by simp
    from Pair Inr c2 w2 size_check_stage_store [of e c w2] show ?thesis
      by (simp add: try_block_def split: option.splits)
  qed
qed

lemma catch_block_store: "pendingRequests (catch_block c (x, w)) = pendingRequests w"
  by (simp add: catch_block_def updateStatus_def send_def split: completion.splits)

lemma processClip_store: "pendingRequests (processClip e c w) = pendingRequests w"
proof -
  obtain x w1 where t: "try_block e c w = (x, w1)" by (cases "try_block e c w")
  with try_block_store [of e c w] catch_block_store [of c x w1] show ?thesis
    by (simp add: processClip_def Let_def)
qed

lemma dispatch_none:
  assumes "pendingRequests w (cb_chat q) = None"
  shows "callback_dispatch e q w =
           (send (SendMessage (cb_chat q) no_pending_text Plain)
              (send (AnswerCallbackQuery (query_id q)) w), None)"
  using assms by (simp add: callback_dispatch_def Let_def send_def)

lemma dispatch_unknown:
  assumes "pendingRequests w (cb_chat q) = Some r" "chosen_mode q = None"
  shows "callback_dispatch e q w = (send (AnswerCallbackQuery (query_id q)) w, None)"
  using assms
  by (simp add: callback_dispatch_def chosen_mode_def Let_def send_def split: if_splits)

lemma dispatch_choice:
  assumes "pendingRequests w (cb_chat q) = Some r" "chosen_mode q = Some mode"
  shows "callback_dispatch e q w =
           (send (SendMessage (cb_chat q) processing_text Plain)
              (send (EditMessageReplyMarkup (cb_chat q) (cb_message_id q) [])
                 ((send (AnswerCallbackQuery (query_id q)) w)
                    \<lparr>pendingRequests := (pendingRequests w)(cb_chat q := None)\<rparr>)),
            Some \<lparr>c_chatId = cb_chat q, c_url = url r, c_startTime = startTime r,
                   c_endTime = endTime r, c_mode = mode, c_statusMsgId = status_message_id e\<rparr>)"
  using assms
  by (simp add: callback_dispatch_def chosen_mode_def Let_def send_def split: if_splits)

lemma on_callback_store:
  "pendingRequests (on_callback e q w) = pendingRequests w \<or>
   pendingRequests (on_callback e q w) = (pendingRequests w)(cb_chat q := None)"
proof (cases "pendingRequests w (cb_chat q)")
  case None
  then show ?thesis by (simp add: on_callback_def dispatch_none send_def)
next
  case (Some r)
  show ?thesis
  proof (cases "chosen_mode q")
    case None
    with Some show ?thesis by (simp add: on_callback_def dispatch_unknown send_def)
  next
    case (Some mode)
    with \<open>pendingRequests w (cb_chat q) = Some r\<close> show ?thesis
      by (simp add: on_callback_def dispatch_choice processClip_store send_def)
  qed
qed

lemma on_callback_store_ok: "store_ok fp w \<Longrightarrow> store_ok fp (on_callback e q w)"
  using on_callback_store [of e q w] unfolding store_ok_def by (auto split: if_splits)

lemma reachable_store_ok: "reachable fp w \<Longrightarrow> store_ok fp w"
proof (induction rule: reachable.induct)
  case (start w)
  then show ?case by (simp add: store_ok_def)
next
  case (message w msg)
  then show ?case by (simp add: on_message_store_ok)
next
  case (callback w e q)
  then show ?case by (simp add: on_callback_store_ok)
qed

subsection \<open>Claims about the handlers\<close>

lemma sample_texts:
  "truthy (extractYouTubeUrl (trim (js ''https://youtu.be/abc123 from 0:10 to 0:30''))) =
     Some (js ''https://youtu.be/abc123'')"
  "truthy (extractYouTubeUrl (trim (js ''https://youtu.be/abc123 from 0:30 to 0:10''))) =
     Some (js ''https://youtu.be/abc123'')"
  by (simp_all add: truthy_def trim_def re_eval)

lemma sample_pairs:
  "extractTimestamps sample_ieee (trim (js ''https://youtu.be/abc123 from 0:10 to 0:30'')) =
     Some \<lparr>startTime = js ''00:00:10'', endTime = js ''00:00:30''\<rparr>"
  "extractTimestamps sample_ieee (trim (js ''https://youtu.be/abc123 from 0:30 to 0:10'')) =
     Some \<lparr>startTime = js ''00:00:30'', endTime = js ''00:00:10''\<rparr>"
proof -
  have t: "trim (js ''https://youtu.be/abc123 from 0:10 to 0:30'') =
      js ''https://youtu.be/abc123 from 0:10 to 0:30''"
    "trim (js ''https://youtu.be/abc123 from 0:30 to 0:10'') =
      js ''https://youtu.be/abc123 from 0:30 to 0:10''"
    by (simp_all add: trim_def is_space_def js_def)
  have m: "match_all False tsPattern (js ''https://youtu.be/abc123 from 0:10 to 0:30'') =
      [js ''0:10'', js ''0:30'']"
    "match_all False tsPattern (js ''https://youtu.be/abc123 from 0:30 to 0:10'') =
      [js ''0:30'', js ''0:10'']"
    by (simp_all add: ts_eval)
  have n: "normaliseTimestamp sample_ieee (js ''0:10'') = Some (js ''00:00:10'')"
    "normaliseTimestamp sample_ieee (js ''0:30'') = Some (js ''00:00:30'')"
    by (simp_all add: eval_defs)
  show "extractTimestamps sample_ieee (trim (js ''https://youtu.be/abc123 from 0:10 to 0:30'')) =
     Some \<lparr>startTime = js ''00:00:10'', endTime = js ''00:00:30''\<rparr>"
    unfolding t extractTimestamps_eq m by (simp add: n)
  show "extractTimestamps sample_ieee (trim (js ''https://youtu.be/abc123 from 0:30 to 0:10'')) =
     Some \<lparr>startTime = js ''00:00:30'', endTime = js ''00:00:10''\<rparr>"
    unfolding t extractTimestamps_eq m by (simp add: n)
qed

lemma sample_seconds:
  "toSeconds sample_ieee (js ''00:00:10'') = Fin 10"
  "toSeconds sample_ieee (js ''00:00:30'') = Fin 30"
  by (simp_all add: toSeconds_def element_def eval_defs)

text \<open>
  C2. When a text message yields both a URL and a pair of timestamps, both timestamps are
  canonical and \<^verbatim>\<open>toSeconds\<close> gives each its hours times 3600 plus minutes times 60 plus
  seconds. The request is stored exactly when the start is before the end by these total
  seconds, and the user is asked for the format; otherwise the start is at or after the
  end, the store is left as it was, and the reply shows the pair after \<^verbatim>\<open>You sent:\<close>.
  A message changes the store at most by binding the chat to a request whose start is
  before its end, so every request in a store that the program can reach has its start
  before its end.
\<close>

theorem pending_requests_ordered:
  "(\<forall>raw u ts. msg_text msg = Some raw \<and> raw \<noteq> [] \<and>
       truthy (extractYouTubeUrl (trim raw)) = Some u \<and>
       extractTimestamps fp (trim raw) = Some ts \<longrightarrow>
      (\<exists>h m s h' m' s'. h < 100 \<and> m \<le> 59 \<and> s \<le> 59 \<and> h' < 100 \<and> m' \<le> 59 \<and> s' \<le> 59 \<and>
         startTime ts = clock h m s \<and> endTime ts = clock h' m' s' \<and>
         toSeconds fp (startTime ts) = Fin (of_nat (h * 3600 + m * 60 + s)) \<and>
         toSeconds fp (endTime ts) = Fin (of_nat (h' * 3600 + m' * 60 + s')) \<and>
         (if h * 3600 + m * 60 + s < h' * 3600 + m' * 60 + s'
          then on_message fp msg w =
            send (SendMessage (msg_chat msg) (prompt_text u (startTime ts) (endTime ts))
                    (InlineKeyboard format_keyboard))
              (w\<lparr>pendingRequests := (pendingRequests w)
                   (msg_chat msg \<mapsto> \<lparr>startTime = startTime ts, endTime = endTime ts,
                                      url = u\<rparr>)\<rparr>)
          else on_message fp msg w =
            send (SendMessage (msg_chat msg) (order_text (startTime ts) (endTime ts)) Plain) w)) \<and>
      (js_lt (toSeconds fp (startTime ts)) (toSeconds fp (endTime ts)) \<longrightarrow>
         on_message fp msg w =
           send (SendMessage (msg_chat msg) (prompt_text u (startTime ts) (endTime ts))
                   (InlineKeyboard format_keyboard))
             (w\<lparr>pendingRequests := (pendingRequests w)
                  (msg_chat msg \<mapsto> \<lparr>startTime = startTime ts, endTime = endTime ts,
                                     url = u\<rparr>)\<rparr>)) \<and>
      (\<not> js_lt (toSeconds fp (startTime ts)) (toSeconds fp (endTime ts)) \<longrightarrow>
         js_ge (toSeconds fp (startTime ts)) (toSeconds fp (endTime ts)) \<and>
         on_message fp msg w =
           send (SendMessage (msg_chat msg) (order_text (startTime ts) (endTime ts)) Plain) w)) \<and>
   (\<forall>start end. \<exists>a b. order_text start end =
      a @ (js ''You sent: '' @ start @ [32, 8594, 32] @ end) @ b) \<and>
   (\<forall>start end. js_includes (order_text start end)
      (js ''The start time must be before the end time.'')) \<and>
   (\<forall>h m s. h < 100 \<and> m < 100 \<and> s < 100 \<longrightarrow>
      toSeconds fp (clock h m s) = Fin (of_nat (h * 3600 + m * 60 + s))) \<and>
   (pendingRequests (on_message fp msg w) = pendingRequests w \<or>
    (\<exists>r. ordered fp r \<and> starts_before r \<and>
       pendingRequests (on_message fp msg w) = (pendingRequests w)(msg_chat msg \<mapsto> r))) \<and>
   (\<forall>w'. reachable fp w' \<longrightarrow> store_ok fp w')"
proof -
  have a: "js_lt (toSeconds fp (startTime ts)) (toSeconds fp (endTime ts)) \<longrightarrow>
         on_message fp msg w =
           send (SendMessage (msg_chat msg) (prompt_text u (startTime ts) (endTime ts))
                   (InlineKeyboard format_keyboard))
             (w\<lparr>pendingRequests := (pendingRequests w)
                  (msg_chat msg \<mapsto> \<lparr>startTime = startTime ts, endTime = endTime ts,
                                     url = u\<rparr>)\<rparr>)"
    and b: "\<not> js_lt (toSeconds fp (startTime ts)) (toSeconds fp (endTime ts)) \<longrightarrow>
         js_ge (toSeconds fp (startTime ts)) (toSeconds fp (endTime ts)) \<and>
         on_message fp msg w =
           send (SendMessage (msg_chat msg) (order_text (startTime ts) (endTime ts)) Plain) w"
    and c: "\<exists>h m s h' m' s'. h < 100 \<and> m \<le> 59 \<and> s \<le> 59 \<and> h' < 100 \<and> m' \<le> 59 \<and> s' \<le> 59 \<and>
         startTime ts = clock h m s \<and> endTime ts = clock h' m' s' \<and>
         toSeconds fp (startTime ts) = Fin (of_nat (h * 3600 + m * 60 + s)) \<and>
         toSeconds fp (endTime ts) = Fin (of_nat (h' * 3600 + m' * 60 + s')) \<and>
         (if h * 3600 + m * 60 + s < h' * 3600 + m' * 60 + s'
          then on_message fp msg w =
            send (SendMessage (msg_chat msg) (prompt_text u (startTime ts) (endTime ts))
                    (InlineKeyboard format_keyboard))
              (w\<lparr>pendingRequests := (pendingRequests w)
                   (msg_chat msg \<mapsto> \<lparr>startTime = startTime ts, endTime = endTime ts,
                                      url = u\<rparr>)\<rparr>)
          else on_message fp msg w =
            send (SendMessage (msg_chat msg) (order_text (startTime ts) (endTime ts)) Plain) w)"
    if h: "msg_text msg = Some raw" "raw \<noteq> []"
      "truthy (extractYouTubeUrl (trim raw)) = Some u"
      "extractTimestamps fp (trim raw) = Some ts" for raw u ts
  proof -
    from extractTimestamps_valid [OF h(4)]
    have v: "valid_hhmmss (startTime ts)" "valid_hhmmss (endTime ts)" by auto
    then have g: "js_ge (toSeconds fp (startTime ts)) (toSeconds fp (endTime ts)) \<longleftrightarrow>
        \<not> js_lt (toSeconds fp (startTime ts)) (toSeconds fp (endTime ts))"
      by (intro ge_iff_not_lt)
    show "js_lt (toSeconds fp (startTime ts)) (toSeconds fp (endTime ts)) \<longrightarrow>
         on_message fp msg w =
           send (SendMessage (msg_chat msg) (prompt_text u (startTime ts) (endTime ts))
                   (InlineKeyboard format_keyboard))
             (w\<lparr>pendingRequests := (pendingRequests w)
                  (msg_chat msg \<mapsto> \<lparr>startTime = startTime ts, endTime = endTime ts,
                                     url = u\<rparr>)\<rparr>)"
      unfolding on_message_both [OF h] by simp
    show "\<not> js_lt (toSeconds fp (startTime ts)) (toSeconds fp (endTime ts)) \<longrightarrow>
         js_ge (toSeconds fp (startTime ts)) (toSeconds fp (endTime ts)) \<and>
         on_message fp msg w =
           send (SendMessage (msg_chat msg) (order_text (startTime ts) (endTime ts)) Plain) w"
      unfolding on_message_both [OF h] using g by simp
    from valid_clock [OF v(1)] obtain h1 m1 s1 where a: "h1 < 100" "m1 \<le> 59" "s1 \<le> 59"
      "startTime ts = clock h1 m1 s1" by blast
    from valid_clock [OF v(2)] obtain h2 m2 s2 where b: "h2 < 100" "m2 \<le> 59" "s2 \<le> 59"
      "endTime ts = clock h2 m2 s2" by blast
    from a have 1: "toSeconds fp (startTime ts) = Fin (of_nat (h1 * 3600 + m1 * 60 + s1))"
      by (simp add: toSeconds_clock)
    from b have 2: "toSeconds fp (endTime ts) = Fin (of_nat (h2 * 3600 + m2 * 60 + s2))"
      by (simp add: toSeconds_clock)
    have 3: "js_lt (toSeconds fp (startTime ts)) (toSeconds fp (endTime ts)) \<longleftrightarrow>
        h1 * 3600 + m1 * 60 + s1 < h2 * 3600 + m2 * 60 + s2"
      unfolding 1 2 by (simp only: js_lt.simps of_nat_less_iff)
    have 4: "if h1 * 3600 + m1 * 60 + s1 < h2 * 3600 + m2 * 60 + s2
          then on_message fp msg w =
            send (SendMessage (msg_chat msg) (prompt_text u (startTime ts) (endTime ts))
                    (InlineKeyboard format_keyboard))
              (w\<lparr>pendingRequests := (pendingRequests w)
                   (msg_chat msg \<mapsto> \<lparr>startTime = startTime ts, endTime = endTime ts,
                                      url = u\<rparr>)\<rparr>)
          else on_message fp msg w =
            send (SendMessage (msg_chat msg) (order_text (startTime ts) (endTime ts)) Plain) w"
      unfolding on_message_both [OF h] 3 by simp
    show "\<exists>h m s h' m' s'. h < 100 \<and> m \<le> 59 \<and> s \<le> 59 \<and> h' < 100 \<and> m' \<le> 59 \<and> s' \<le> 59 \<and>
         startTime ts = clock h m s \<and> endTime ts = clock h' m' s' \<and>
         toSeconds fp (startTime ts) = Fin (of_nat (h * 3600 + m * 60 + s)) \<and>
         toSeconds fp (endTime ts) = Fin (of_nat (h' * 3600 + m' * 60 + s')) \<and>
         (if h * 3600 + m * 60 + s < h' * 3600 + m' * 60 + s'
          then on_message fp msg w =
            send (SendMessage (msg_chat msg) (prompt_text u (startTime ts) (endTime ts))
                    (InlineKeyboard format_keyboard))
              (w\<lparr>pendingRequests := (pendingRequests w)
                   (msg_chat msg \<mapsto> \<lparr>startTime = startTime ts, endTime = endTime ts,
                                      url = u\<rparr>)\<rparr>)
          else on_message fp msg w =
            send (SendMessage (msg_chat msg) (order_text (startTime ts) (endTime ts)) Plain) w)"
      by (rule exI [of _ h1], rule exI [of _ m1], rule exI [of _ s1], rule exI [of _ h2],
          rule exI [of _ m2], rule exI [of _ s2]) (use a b 1 2 4 in \<open>simp only: simp_thms\<close>)
  qed
  have d: "\<exists>a b. order_text x y =
      a @ (js ''You sent: '' @ x @ [32, 8594, 32] @ y) @ b" for x y
    using order_text_echo [of x y] by blast
  have e: "js_includes (order_text x y)
      (js ''The start time must be before the end time.'')" for x y
  proof -
    have "order_text x y =
        [9888, 65039, 32, 32] @ js ''The start time must be before the end time.'' @
        ([10, 10] @ js ''You sent: '' @ x @ arrow @ y @ [10, 10] @ js ''Please try again.'')"
      by (simp add: order_text_def order_head_def js_def)
    then show ?thesis by (simp only: js_includes_middle)
  qed
  have f: "toSeconds fp (clock h m s) = Fin (of_nat (h * 3600 + m * 60 + s))"
    if "h < 100 \<and> m < 100 \<and> s < 100" for h m s
    using that by (simp add: toSeconds_clock)
  have p1: "\<forall>raw u ts. msg_text msg = Some raw \<and> raw \<noteq> [] \<and>
       truthy (extractYouTubeUrl (trim raw)) = Some u \<and>
       extractTimestamps fp (trim raw) = Some ts \<longrightarrow>
      (\<exists>h m s h' m' s'. h < 100 \<and> m \<le> 59 \<and> s \<le> 59 \<and> h' < 100 \<and> m' \<le> 59 \<and> s' \<le> 59 \<and>
         startTime ts = clock h m s \<and> endTime ts = clock h' m' s' \<and>
         toSeconds fp (startTime ts) = Fin (of_nat (h * 3600 + m * 60 + s)) \<and>
         toSeconds fp (endTime ts) = Fin (of_nat (h' * 3600 + m' * 60 + s')) \<and>
         (if h * 3600 + m * 60 + s < h' * 3600 + m' * 60 + s'
          then on_message fp msg w =
            send (SendMessage (msg_chat msg) (prompt_text u (startTime ts) (endTime ts))
                    (InlineKeyboard format_keyboard))
              (w\<lparr>pendingRequests := (pendingRequests w)
                   (msg_chat msg \<mapsto> \<lparr>startTime = startTime ts, endTime = endTime ts,
                                      url = u\<rparr>)\<rparr>)
          else on_message fp msg w =
            send (SendMessage (msg_chat msg) (order_text (startTime ts) (endTime ts)) Plain) w)) \<and>
      (js_lt (toSeconds fp (startTime ts)) (toSeconds fp (endTime ts)) \<longrightarrow>
         on_message fp msg w =
           send (SendMessage (msg_chat msg) (prompt_text u (startTime ts) (endTime ts))
                   (InlineKeyboard format_keyboard))
             (w\<lparr>pendingRequests := (pendingRequests w)
                  (msg_chat msg \<mapsto> \<lparr>startTime = startTime ts, endTime = endTime ts,
                                     url = u\<rparr>)\<rparr>)) \<and>
      (\<not> js_lt (toSeconds fp (startTime ts)) (toSeconds fp (endTime ts)) \<longrightarrow>
         js_ge (toSeconds fp (startTime ts)) (toSeconds fp (endTime ts)) \<and>
         on_message fp msg w =
           send (SendMessage (msg_chat msg) (order_text (startTime ts) (endTime ts)) Plain) w)"
  proof (intro allI impI)
    fix raw u ts
    assume "msg_text msg = Some raw \<and> raw \<noteq> [] \<and>
       truthy (extractYouTubeUrl (trim raw)) = Some u \<and>
       extractTimestamps fp (trim raw) = Some ts"
    then have h: "msg_text msg = Some raw" "raw \<noteq> []"
      "truthy (extractYouTubeUrl (trim raw)) = Some u"
      "extractTimestamps fp (trim raw) = Some ts" by simp_all
    show "(\<exists>h m s h' m' s'. h < 100 \<and> m \<le> 59 \<and> s \<le> 59 \<and> h' < 100 \<and> m' \<le> 59 \<and> s' \<le> 59 \<and>
         startTime ts = clock h m s \<and> endTime ts = clock h' m' s' \<and>
         toSeconds fp (startTime ts) = Fin (of_nat (h * 3600 + m * 60 + s)) \<and>
         toSeconds fp (endTime ts) = Fin (of_nat (h' * 3600 + m' * 60 + s')) \<and>
         (if h * 3600 + m * 60 + s < h' * 3600 + m' * 60 + s'
          then on_message fp msg w =
            send (SendMessage (msg_chat msg) (prompt_text u (startTime ts) (endTime ts))
                    (InlineKeyboard format_keyboard))
              (w\<lparr>pendingRequests := (pendingRequests w)
                   (msg_chat msg \<mapsto> \<lparr>startTime = startTime ts, endTime = endTime ts,
                                      url = u\<rparr>)\<rparr>)
          else on_message fp msg w =
            send (SendMessage (msg_chat msg) (order_text (startTime ts) (endTime ts)) Plain) w)) \<and>
      (js_lt (toSeconds fp (startTime ts)) (toSeconds fp (endTime ts)) \<longrightarrow>
         on_message fp msg w =
           send (SendMessage (msg_chat msg) (prompt_text u (startTime ts) (endTime ts))
                   (InlineKeyboard format_keyboard))
             (w\<lparr>pendingRequests := (pendingRequests w)
                  (msg_chat msg \<mapsto> \<lparr>startTime = startTime ts, endTime = endTime ts,
                                     url = u\<rparr>)\<rparr>)) \<and>
      (\<not> js_lt (toSeconds fp (startTime ts)) (toSeconds fp (endTime ts)) \<longrightarrow>
         js_ge (toSeconds fp (startTime ts)) (toSeconds fp (endTime ts)) \<and>
         on_message fp msg w =
           send (SendMessage (msg_chat msg) (order_text (startTime ts) (endTime ts)) Plain) w)"
      by (rule conjI [OF c [OF h] conjI [OF a [OF h] b [OF h]]])
  qed
  have p2: "\<forall>x y. \<exists>a b. order_text x y =
      a @ (js ''You sent: '' @ x @ [32, 8594, 32] @ y) @ b"
    using d by (intro allI)
  have p3: "\<forall>x y. js_includes (order_text x y)
      (js ''The start time must be before the end time.'')"
    using e by (intro allI)
  have p4: "\<forall>h m s. h < 100 \<and> m < 100 \<and> s < 100 \<longrightarrow>
      toSeconds fp (clock h m s) = Fin (of_nat (h * 3600 + m * 60 + s))"
    using f by (intro allI impI)
  have p6: "\<forall>w'. reachable fp w' \<longrightarrow> store_ok fp w'"
    using reachable_store_ok [of fp] by (intro allI impI)
  show ?thesis
    by (rule conjI [OF p1 conjI [OF p2 conjI [OF p3 conjI [OF p4
          conjI [OF on_message_store [of fp msg w] p6]]]]])
qed

theorem pending_requests_ordered_witness:
  "pendingRequests (on_message sample_ieee sample_message sample_world) 5 = Some sample_request \<and>
   ordered sample_ieee sample_request \<and> starts_before sample_request \<and>
   on_message sample_ieee reversed_message sample_world =
     send (SendMessage 5 (order_text (js ''00:00:30'') (js ''00:00:10'')) Plain) sample_world \<and>
   js_includes (order_text (js ''00:00:30'') (js ''00:00:10''))
     (js ''You sent: 00:00:30 '' @ [8594] @ js '' 00:00:10'') \<and>
   toSeconds sample_ieee (js ''01:02:15'') = Fin 3735 \<and>
   store_ok sample_ieee (on_message sample_ieee sample_message sample_world)"
proof -
  have h1: "msg_text sample_message = Some (js ''https://youtu.be/abc123 from 0:10 to 0:30'') \<and>
      js ''https://youtu.be/abc123 from 0:10 to 0:30'' \<noteq> [] \<and>
      truthy (extractYouTubeUrl (trim (js ''https://youtu.be/abc123 from 0:10 to 0:30''))) =
        Some (js ''https://youtu.be/abc123'') \<and>
      extractTimestamps sample_ieee (trim (js ''https://youtu.be/abc123 from 0:10 to 0:30'')) =
        Some \<lparr>startTime = js ''00:00:10'', endTime = js ''00:00:30''\<rparr>"
    by (simp add: sample_message_def sample_texts sample_pairs) (simp add: js_def)
  have l1: "js_lt (toSeconds sample_ieee (startTime \<lparr>startTime = js ''00:00:10'', endTime = js ''00:00:30''\<rparr>))
      (toSeconds sample_ieee (endTime \<lparr>startTime = js ''00:00:10'', endTime = js ''00:00:30''\<rparr>))"
    by (simp add: sample_seconds)
  have h2: "msg_text reversed_message = Some (js ''https://youtu.be/abc123 from 0:30 to 0:10'') \<and>
      js ''https://youtu.be/abc123 from 0:30 to 0:10'' \<noteq> [] \<and>
      truthy (extractYouTubeUrl (trim (js ''https://youtu.be/abc123 from 0:30 to 0:10''))) =
        Some (js ''https://youtu.be/abc123'') \<and>
      extractTimestamps sample_ieee (trim (js ''https://youtu.be/abc123 from 0:30 to 0:10'')) =
        Some \<lparr>startTime = js ''00:00:30'', endTime = js ''00:00:10''\<rparr>"
    by (simp add: reversed_message_def sample_texts sample_pairs) (simp add: js_def)
  have l2: "\<not> js_lt (toSeconds sample_ieee (startTime \<lparr>startTime = js ''00:00:30'', endTime = js ''00:00:10''\<rparr>))
      (toSeconds sample_ieee (endTime \<lparr>startTime = js ''00:00:30'', endTime = js ''00:00:10''\<rparr>))"
    by (simp add: sample_seconds)
  note t1 = pending_requests_ordered [of sample_message sample_ieee sample_world]
  note t2 = pending_requests_ordered [of reversed_message sample_ieee sample_world]
  note t1a = t1 [THEN conjunct1, rule_format, OF h1]
  note t2a = t2 [THEN conjunct1, rule_format, OF h2]
  from t1a [THEN conjunct2, THEN conjunct1, rule_format, OF l1]
  have r1: "on_message sample_ieee sample_message sample_world =
      send (SendMessage 5
              (prompt_text (js ''https://youtu.be/abc123'') (js ''00:00:10'') (js ''00:00:30''))
              (InlineKeyboard format_keyboard))
        (sample_world\<lparr>pendingRequests := (pendingRequests sample_world)
           (5 \<mapsto> \<lparr>startTime = js ''00:00:10'', endTime = js ''00:00:30'',
                   url = js ''https://youtu.be/abc123''\<rparr>)\<rparr>)"
    by (simp add: sample_message_def)
  from t2a [THEN conjunct2, THEN conjunct2, rule_format, OF l2]
  have q: "on_message sample_ieee reversed_message sample_world =
     send (SendMessage 5 (order_text (js ''00:00:30'') (js ''00:00:10'')) Plain) sample_world"
    by (simp add: reversed_message_def)
  have s: "reachable sample_ieee (on_message sample_ieee sample_message sample_world)"
    by (intro reachable.message reachable.start) (simp add: sample_world_def)
  note t1r = t1 [THEN conjunct2, THEN conjunct2, THEN conjunct2, THEN conjunct2, THEN conjunct2]
  from t1r s
  have r3: "store_ok sample_ieee (on_message sample_ieee sample_message sample_world)"
    by (simp only:)
  have p: "pendingRequests (on_message sample_ieee sample_message sample_world) 5 = Some sample_request"
    unfolding r1 by (simp add: send_def sample_request_def)
  note o = r3 [unfolded store_ok_def, rule_format, OF p]
  note t1e = t1 [THEN conjunct2, THEN conjunct1, rule_format,
      of "js ''00:00:30''" "js ''00:00:10''"]
  then obtain a b where "order_text (js ''00:00:30'') (js ''00:00:10'') =
      a @ (js ''You sent: '' @ js ''00:00:30'' @ [32, 8594, 32] @ js ''00:00:10'') @ b"
    by (elim exE)
  moreover have "js ''You sent: '' @ js ''00:00:30'' @ [32, 8594, 32] @ js ''00:00:10'' =
      js ''You sent: 00:00:30 '' @ [8594] @ js '' 00:00:10''"
    by (simp add: js_def)
  ultimately have e: "js_includes (order_text (js ''00:00:30'') (js ''00:00:10''))
     (js ''You sent: 00:00:30 '' @ [8594] @ js '' 00:00:10'')"
    by (simp only: js_includes_middle)
  have k: "(1::nat) < 100 \<and> (2::nat) < 100 \<and> (15::nat) < 100" by simp
  have c: "clock 1 2 15 = js ''01:02:15''" by (simp add: clock_def js_def)
  from t1 [THEN conjunct2, THEN conjunct2, THEN conjunct2, THEN conjunct1, rule_format, OF k]
  have u: "toSeconds sample_ieee (js ''01:02:15'') = Fin 3735"
    unfolding c by simp
  from p o q e u r3 show ?thesis by (intro conjI) simp_all
qed



text \<open>
  C10. For a chat with a pending request, a callback whose data is neither
  \<^verbatim>\<open>format_audio\<close> nor \<^verbatim>\<open>format_video\<close> is acknowledged and nothing else happens: the
  store and the files are as before, the only call is the acknowledgement, and a later
  format choice for the chat still finds the request.
\<close>

theorem unknown_callback_ignored:
  "(\<forall>r. pendingRequests w (cb_chat q) = Some r \<and> data q \<noteq> Some (js ''format_audio'') \<and>
        data q \<noteq> Some (js ''format_video'') \<longrightarrow>
      on_callback e q w = send (AnswerCallbackQuery (query_id q)) w \<and>
      snd (callback_dispatch e q w) = None \<and>
      pendingRequests (on_callback e q w) = pendingRequests w \<and>
      files (on_callback e q w) = files w \<and>
      outbox (on_callback e q w) = outbox w @ [AnswerCallbackQuery (query_id q)] \<and>
      (\<forall>e2 q2 mode. cb_chat q2 = cb_chat q \<and> chosen_mode q2 = Some mode \<longrightarrow>
         snd (callback_dispatch e2 q2 (on_callback e q w)) =
           Some \<lparr>c_chatId = cb_chat q, c_url = url r, c_startTime = startTime r,
                  c_endTime = endTime r, c_mode = mode,
                  c_statusMsgId = status_message_id e2\<rparr>))"
proof (intro allI impI)
  fix r
  assume h: "pendingRequests w (cb_chat q) = Some r \<and> data q \<noteq> Some (js ''format_audio'') \<and>
        data q \<noteq> Some (js ''format_video'')"
  then have m: "chosen_mode q = None" by (simp add: chosen_mode_def)
  from h have p: "pendingRequests w (cb_chat q) = Some r" by simp
  have 1: "on_callback e q w = send (AnswerCallbackQuery (query_id q)) w"
    unfolding on_callback_def dispatch_unknown [OF p m] by simp
  have 2: "snd (callback_dispatch e q w) = None"
    unfolding dispatch_unknown [OF p m] by simp
  have 3: "snd (callback_dispatch e2 q2 (on_callback e q w)) =
           Some \<lparr>c_chatId = cb_chat q, c_url = url r, c_startTime = startTime r,
                  c_endTime = endTime r, c_mode = mode,
                  c_statusMsgId = status_message_id e2\<rparr>"
    if g: "cb_chat q2 = cb_chat q" "chosen_mode q2 = Some mode" for e2 q2 mode
  proof -
    have "pendingRequests (on_callback e q w) (cb_chat q2) = Some r"
      unfolding 1 using p g(1) by (simp add: send_def)
    from dispatch_choice [OF this g(2)] show ?thesis by (simp add: g(1))
  qed
  from 1 2 3 show "on_callback e q w = send (AnswerCallbackQuery (query_id q)) w \<and>
      snd (callback_dispatch e q w) = None \<and>
      pendingRequests (on_callback e q w) = pendingRequests w \<and>
      files (on_callback e q w) = files w \<and>
      outbox (on_callback e q w) = outbox w @ [AnswerCallbackQuery (query_id q)] \<and>
      (\<forall>e2 q2 mode. cb_chat q2 = cb_chat q \<and> chosen_mode q2 = Some mode \<longrightarrow>
         snd (callback_dispatch e2 q2 (on_callback e q w)) =
           Some \<lparr>c_chatId = cb_chat q, c_url = url r, c_startTime = startTime r,
                  c_endTime = endTime r, c_mode = mode,
                  c_statusMsgId = status_message_id e2\<rparr>)"
    by (simp add: send_def)
qed

theorem unknown_callback_ignored_witness:
  "pendingRequests pending_world (cb_chat other_query) = Some sample_request \<and>
   data other_query \<noteq> Some (js ''format_audio'') \<and>
   data other_query \<noteq> Some (js ''format_video'') \<and>
   on_callback (sample_env 500) other_query pending_world =
     send (AnswerCallbackQuery (js ''q2'')) pending_world \<and>
   pendingRequests (on_callback (sample_env 500) other_query pending_world) 5 =
     Some sample_request"
proof -
  have h: "pendingRequests pending_world (cb_chat other_query) = Some sample_request \<and>
      data other_query \<noteq> Some (js ''format_audio'') \<and>
      data other_query \<noteq> Some (js ''format_video'')"
    by (simp add: pending_world_def other_query_def js_def)
  from unknown_callback_ignored [of pending_world other_query "sample_env 500"] h
  have 1: "on_callback (sample_env 500) other_query pending_world =
      send (AnswerCallbackQuery (query_id other_query)) pending_world"
    and 2: "pendingRequests (on_callback (sample_env 500) other_query pending_world) =
      pendingRequests pending_world" by blast+
  have q: "query_id other_query = js ''q2''" by (simp add: other_query_def)
  have p: "pendingRequests pending_world 5 = Some sample_request"
    by (simp add: pending_world_def)
  from h 1 2 show ?thesis unfolding q by (simp add: p)
qed

section \<open>Properties of the pipeline\<close>

subsection \<open>Outcomes of the stages\<close>

lemma userMessage_download: "userMessage (js ''yt-dlp'' @ rest) = failed_prefix @ download_explanation"
  by (simp add: userMessage_def js_includes_prefix)

lemma userMessage_not_found: "userMessage error_not_found = failed_prefix @ js ''Error: '' @ error_not_found"
  by (simp add: userMessage_def error_not_found_def js_def)

lemma userMessage_empty: "userMessage error_empty = failed_prefix @ js ''Error: '' @ error_empty"
  by (simp add: userMessage_def error_empty_def js_def)

lemma download_failed:
  assumes "yt_dlp e (ytdlpArgs e c) (files w) = (Some detail, d1)"
  shows "download_stage e c w =
           (Inl (js ''yt-dlp'' @ js '' failed: '' @ detail),
            w\<lparr>files := d1,
              outbox := outbox w @ [edit c status_downloading,
                                    RunCommand (js ''yt-dlp'') (ytdlpArgs e c)]\<rparr>)"
  using assms
  by (simp add: download_stage_def runCommand_def updateStatus_def send_def edit_def Let_def)

lemma download_not_found:
  assumes "yt_dlp e (ytdlpArgs e c) (files w) = (None, d1)"
    and "findDownloadedFile d1 (downloadName e c) = None"
  shows "download_stage e c w =
           (Inl error_not_found,
            w\<lparr>files := d1,
              outbox := outbox w @ [edit c status_downloading,
                                    RunCommand (js ''yt-dlp'') (ytdlpArgs e c)]\<rparr>)"
  using assms
  by (simp add: download_stage_def runCommand_def updateStatus_def send_def edit_def Let_def)

lemma download_found:
  assumes "yt_dlp e (ytdlpArgs e c) (files w) = (None, d1)"
    and "findDownloadedFile d1 (downloadName e c) = Some a"
  shows "download_stage e c w =
           (Inr a,
            w\<lparr>files := d1,
              outbox := outbox w @ [edit c status_downloading,
                                    RunCommand (js ''yt-dlp'') (ytdlpArgs e c)]\<rparr>)"
  using assms
  by (simp add: download_stage_def runCommand_def updateStatus_def send_def edit_def Let_def)

lemma cut_done:
  assumes "ffmpeg e (ffmpegArgs e c a) (files w) = (None, d2)"
  shows "cut_stage e c a w =
           (None,
            w\<lparr>files := d2,
              outbox := outbox w @ [edit c status_cutting,
                                    RunCommand (js ''ffmpeg'') (ffmpegArgs e c a)]\<rparr>)"
  using assms
  by (simp add: cut_stage_def runCommand_def updateStatus_def send_def edit_def Let_def)

lemma processClip_outbox:
  "outbox (processClip e c w) = outbox (catch_block c (try_block e c w))"
  by (simp add: processClip_def Let_def)

lemma size_check_reached:
  assumes "yt_dlp e (ytdlpArgs e c) (files w) = (None, d1)"
    and "findDownloadedFile d1 (downloadName e c) = Some a"
    and "ffmpeg e (ffmpegArgs e c a) d1 = (None, d2)"
  shows "try_block e c w =
           size_check_stage e c
             (w\<lparr>files := d2,
                outbox := outbox w @ [edit c status_downloading,
                                      RunCommand (js ''yt-dlp'') (ytdlpArgs e c),
                                      edit c status_cutting,
                                      RunCommand (js ''ffmpeg'') (ffmpegArgs e c a)]\<rparr>)"
proof -
  let ?w1 = "w\<lparr>files := d1,
              outbox := outbox w @ [edit c status_downloading,
                                    RunCommand (js ''yt-dlp'') (ytdlpArgs e c)]\<rparr>"
  have "ffmpeg e (ffmpegArgs e c a) (files ?w1) = (None, d2)" using assms(3) by simp
  from cut_done [OF this] show ?thesis
    by (simp add: try_block_def download_found [OF assms(1,2)])
qed

lemma too_large_run:
  assumes "yt_dlp e (ytdlpArgs e c) (files w) = (None, d1)"
    and "findDownloadedFile d1 (downloadName e c) = Some a"
    and "ffmpeg e (ffmpegArgs e c a) d1 = (None, d2)"
    and "map_of d2 (outputName e c) = Some n" "52428800 < n"
  shows "fst (try_block e c w) = Returned"
    and "outbox (processClip e c w) =
           outbox w @ [edit c status_downloading, RunCommand (js ''yt-dlp'') (ytdlpArgs e c),
                       edit c status_cutting, RunCommand (js ''ffmpeg'') (ffmpegArgs e c a),
                       edit c status_too_large]"
  using assms(4,5)
  by (simp_all add: processClip_outbox size_check_reached [OF assms(1-3)] size_check_stage_def
      statSync_def TELEGRAM_FILE_LIMIT_def catch_block_def updateStatus_def send_def edit_def)

lemma empty_run:
  assumes "yt_dlp e (ytdlpArgs e c) (files w) = (None, d1)"
    and "findDownloadedFile d1 (downloadName e c) = Some a"
    and "ffmpeg e (ffmpegArgs e c a) d1 = (None, d2)"
    and "map_of d2 (outputName e c) = Some 0"
  shows "fst (try_block e c w) = Threw error_empty"
    and "outbox (processClip e c w) =
           outbox w @ [edit c status_downloading, RunCommand (js ''yt-dlp'') (ytdlpArgs e c),
                       edit c status_cutting, RunCommand (js ''ffmpeg'') (ffmpegArgs e c a),
                       edit c (failed_prefix @ js ''Error: '' @ error_empty)]"
  using assms(4)
  by (simp_all add: processClip_outbox size_check_reached [OF assms(1-3)] size_check_stage_def
      statSync_def TELEGRAM_FILE_LIMIT_def catch_block_def updateStatus_def send_def edit_def
      userMessage_empty)

lemma download_failed_run:
  assumes "yt_dlp e (ytdlpArgs e c) (files w) = (Some detail, d1)"
  shows "fst (try_block e c w) = Threw (js ''yt-dlp failed: '' @ detail)"
    and "outbox (processClip e c w) =
           outbox w @ [edit c status_downloading, RunCommand (js ''yt-dlp'') (ytdlpArgs e c),
                       edit c (failed_prefix @ download_explanation)]"
proof -
  have j: "js ''yt-dlp'' @ js '' failed: '' @ detail = js ''yt-dlp failed: '' @ detail"
    by (simp add: js_def)
  show "fst (try_block e c w) = Threw (js ''yt-dlp failed: '' @ detail)"
    by (simp add: try_block_def download_failed [OF assms] j)
  show "outbox (processClip e c w) =
           outbox w @ [edit c status_downloading, RunCommand (js ''yt-dlp'') (ytdlpArgs e c),
                       edit c (failed_prefix @ download_explanation)]"
    by (simp add: processClip_outbox try_block_def download_failed [OF assms] catch_block_def
        updateStatus_def send_def edit_def userMessage_download)
qed

lemma not_found_run:
  assumes "yt_dlp e (ytdlpArgs e c) (files w) = (None, d1)"
    and "findDownloadedFile d1 (downloadName e c) = None"
  shows "fst (try_block e c w) = Threw error_not_found"
    and "outbox (processClip e c w) =
           outbox w @ [edit c status_downloading, RunCommand (js ''yt-dlp'') (ytdlpArgs e c),
                       edit c (failed_prefix @ js ''Error: '' @ error_not_found)]"
  by (simp_all add: processClip_outbox try_block_def download_not_found [OF assms] catch_block_def
      updateStatus_def send_def edit_def userMessage_not_found)

lemma existsSync_iff: "existsSync d n \<longleftrightarrow> n \<in> fst ` set d"
  by (simp add: existsSync_def map_of_eq_None_iff)

lemma cleanupFile_subset: "set (cleanupFile e n d) \<subseteq> set d"
  by (auto simp: cleanupFile_def)

lemma cleanupFile_gone: "n \<in> fst ` set (cleanupFile e n d) \<Longrightarrow> unlink_fails e n"
  by (auto simp: cleanupFile_def existsSync_iff split: if_splits)

lemma fold_cleanup_subset:
  "set (fold (\<lambda>file acc. if startsWith file p then cleanupFile e file acc else acc) fs acc) \<subseteq> set acc"
proof (induction fs arbitrary: acc)
  case Nil
  show ?case by simp
next
  case (Cons x xs)
  have "set (if startsWith x p then cleanupFile e x acc else acc) \<subseteq> set acc"
    using cleanupFile_subset [of e x acc] by simp
  with Cons [of "if startsWith x p then cleanupFile e x acc else acc"] show ?case
    by simp
qed

lemma fold_cleanup_gone:
  assumes "f \<in> set fs" "startsWith f p"
    and "f \<in> fst ` set (fold (\<lambda>file acc. if startsWith file p then cleanupFile e file acc else acc) fs acc)"
  shows "unlink_fails e f"
  using assms
proof (induction fs arbitrary: acc)
  case Nil
  then show ?case by simp
next
  case (Cons x xs)
  show ?case
  proof (cases "f = x")
    case True
    let ?g = "\<lambda>file acc. if startsWith file p then cleanupFile e file acc else acc"
    from Cons.prems True have "f \<in> fst ` set (fold ?g xs (cleanupFile e f acc))" by simp
    with fold_cleanup_subset [of p e xs "cleanupFile e f acc"]
    have "f \<in> fst ` set (cleanupFile e f acc)" by blast
    then show ?thesis by (rule cleanupFile_gone)
  next
    case False
    with Cons.prems have "f \<in> set xs" by simp
    with Cons.IH [of "if startsWith x p then cleanupFile e x acc else acc"] Cons.prems
    show ?thesis by simp
  qed
qed

lemma cleanupGlob_subset: "set (cleanupGlob e pattern d) \<subseteq> set d"
  using fold_cleanup_subset [of "strip_dot_star pattern" e "map fst d" d]
  by (simp add: cleanupGlob_def Let_def)

lemma cleanupGlob_gone:
  assumes "\<not> readdir_fails e" "startsWith n (strip_dot_star pattern)"
    and "n \<in> fst ` set (cleanupGlob e pattern d)"
  shows "unlink_fails e n"
proof -
  from assms(3) cleanupGlob_subset [of e pattern d] have "n \<in> set (map fst d)" by auto
  from fold_cleanup_gone [OF this assms(2)] assms(1,3) show ?thesis
    by (simp add: cleanupGlob_def Let_def)
qed

lemma strip_raw_pattern: "strip_dot_star (u @ js ''_raw.*'') = u @ js ''_raw''"
  by (simp add: strip_dot_star_def js_def)

lemma variant_prefix: "variant_name e n \<Longrightarrow> startsWith n (uid e @ js ''_raw'')"
proof -
  assume "variant_name e n"
  then obtain ext where "n = (uid e @ js ''_raw'') @ (46 # ext)"
    by (auto simp: variant_name_def js_def)
  then show ?thesis by (simp only: startsWith_append)
qed

lemma finally_named:
  assumes "n \<in> fst ` set (finally_block e c d)" "n = downloadName e c \<or> n = outputName e c"
  shows "unlink_fails e n"
proof -
  define d1 where "d1 = cleanupFile e (downloadName e c) d"
  define d2 where "d2 = cleanupFile e (outputName e c) d1"
  have f: "finally_block e c d = cleanupGlob e (uid e @ js ''_raw.*'') d2"
    by (simp add: finally_block_def d1_def d2_def)
  have "set (finally_block e c d) \<subseteq> set d2" unfolding f by (rule cleanupGlob_subset)
  with assms(1) have n2: "n \<in> fst ` set d2" by blast
  from assms(2) show ?thesis
  proof
    assume n: "n = downloadName e c"
    have "set d2 \<subseteq> set d1" unfolding d2_def by (rule cleanupFile_subset)
    with n2 have "n \<in> fst ` set d1" by blast
    then show ?thesis unfolding d1_def n by (rule cleanupFile_gone)
  next
    assume n: "n = outputName e c"
    from n2 show ?thesis unfolding d2_def n by (rule cleanupFile_gone)
  qed
qed

lemma finally_variants:
  assumes "\<not> readdir_fails e" "variant_name e n" "n \<in> fst ` set (finally_block e c d)"
  shows "unlink_fails e n"
proof -
  have "startsWith n (strip_dot_star (uid e @ js ''_raw.*''))"
    unfolding strip_raw_pattern using assms(2) by (rule variant_prefix)
  from cleanupGlob_gone [OF assms(1) this] assms(3) show ?thesis
    unfolding finally_block_def by blast
qed

lemma processClip_files:
  "files (processClip e c w) = finally_block e c (files (snd (try_block e c w)))"
  by (cases "try_block e c w")
     (simp add: processClip_def Let_def catch_block_def updateStatus_def send_def
        split: completion.splits)

lemma names_ignore_cleanup:
  "downloadName (e\<lparr>unlink_fails := f, readdir_fails := b\<rparr>) c = downloadName e c"
  "outputName (e\<lparr>unlink_fails := f, readdir_fails := b\<rparr>) c = outputName e c"
  "tmp_path (e\<lparr>unlink_fails := f, readdir_fails := b\<rparr>) n = tmp_path e n"
  by (simp_all add: downloadName_def outputName_def tmp_path_def)

lemma args_ignore_cleanup:
  "ytdlpArgs (e\<lparr>unlink_fails := f, readdir_fails := b\<rparr>) c = ytdlpArgs e c"
  "ffmpegArgs (e\<lparr>unlink_fails := f, readdir_fails := b\<rparr>) c a = ffmpegArgs e c a"
  unfolding ytdlpArgs_def ffmpegArgs_def names_ignore_cleanup by simp_all

lemma download_ignores_cleanup:
  "download_stage (e\<lparr>unlink_fails := f, readdir_fails := b\<rparr>) c w = download_stage e c w"
  unfolding download_stage_def args_ignore_cleanup names_ignore_cleanup by simp

lemma cut_ignores_cleanup:
  "cut_stage (e\<lparr>unlink_fails := f, readdir_fails := b\<rparr>) c a w = cut_stage e c a w"
  unfolding cut_stage_def args_ignore_cleanup by simp

lemma upload_ignores_cleanup:
  "upload_stage (e\<lparr>unlink_fails := f, readdir_fails := b\<rparr>) c w = upload_stage e c w"
  unfolding upload_stage_def names_ignore_cleanup by simp

lemma size_check_ignores_cleanup:
  "size_check_stage (e\<lparr>unlink_fails := f, readdir_fails := b\<rparr>) c w = size_check_stage e c w"
  unfolding size_check_stage_def statSync_def names_ignore_cleanup upload_ignores_cleanup by simp

lemma try_block_ignores_cleanup:
  "try_block (e\<lparr>unlink_fails := f, readdir_fails := b\<rparr>) c w = try_block e c w"
  unfolding try_block_def download_ignores_cleanup cut_ignores_cleanup size_check_ignores_cleanup
  by simp

lemma size_check_files: "files (snd (size_check_stage e c w)) = files w"
  by (simp add: size_check_stage_def upload_stage_def updateStatus_def send_def Let_def
      split: sum.splits option.splits)

lemma sample_download:
  "yt_dlp (sample_env n) (ytdlpArgs (sample_env n) sample_call) (files sample_world) =
     (None, [(sample_uid @ js ''_raw.mkv'', 1000), (js ''other.txt'', 3)])"
  "findDownloadedFile [(sample_uid @ js ''_raw.mkv'', 1000), (js ''other.txt'', 3)]
     (downloadName (sample_env n) sample_call) = Some (sample_uid @ js ''_raw.mkv'')"
  "ffmpeg (sample_env n) (ffmpegArgs (sample_env n) sample_call (sample_uid @ js ''_raw.mkv''))
     [(sample_uid @ js ''_raw.mkv'', 1000), (js ''other.txt'', 3)] =
     (None, [(sample_uid @ js ''_clip.mp3'', n), (sample_uid @ js ''_raw.mkv'', 1000),
             (js ''other.txt'', 3)])"
  "map_of [(sample_uid @ js ''_clip.mp3'', n), (sample_uid @ js ''_raw.mkv'', 1000),
           (js ''other.txt'', 3)] (outputName (sample_env n) sample_call) = Some n"
  by (simp_all add: sample_env_def sample_world_def sample_call_def sample_uid_def
      findDownloadedFile_def existsSync_def downloadName_def outputName_def isAudio_def
      base_name_def extname_def variants_def js_def)

subsection \<open>Claims about the pipeline\<close>

text \<open>
  C1. Let the download and the cut have succeeded and the output file have \<open>n\<close> bytes.
  The ceiling is 52,428,800 bytes. With \<open>n = 0\<close> the \<^verbatim>\<open>try\<close> block ends by the exception
  whose message says that the timestamps may be outside the video duration, the last
  status is the failure text with that message, and it is not the too-large text. With
  \<open>n\<close> above the ceiling the block returns early, the last status is the too-large text
  with its advice, and the run has called each tool once and uploaded nothing.
\<close>

theorem size_check_outcomes:
  assumes "yt_dlp e (ytdlpArgs e c) (files w) = (None, d1)"
    and "findDownloadedFile d1 (downloadName e c) = Some a"
    and "ffmpeg e (ffmpegArgs e c a) d1 = (None, d2)"
    and "map_of d2 (outputName e c) = Some n"
  shows "TELEGRAM_FILE_LIMIT = 52428800 \<and>
    (n = 0 \<longrightarrow>
       fst (try_block e c w) = Threw error_empty \<and>
       outbox (processClip e c w) =
         outbox w @ [edit c status_downloading, RunCommand (js ''yt-dlp'') (ytdlpArgs e c),
                     edit c status_cutting, RunCommand (js ''ffmpeg'') (ffmpegArgs e c a),
                     edit c (failed_prefix @ js ''Error: '' @ error_empty)] \<and>
       failed_prefix @ js ''Error: '' @ error_empty \<noteq> status_too_large \<and>
       js_includes error_empty (js ''the timestamps may be outside the video duration'')) \<and>
    (TELEGRAM_FILE_LIMIT < n \<longrightarrow>
       fst (try_block e c w) = Returned \<and>
       outbox (processClip e c w) =
         outbox w @ [edit c status_downloading, RunCommand (js ''yt-dlp'') (ytdlpArgs e c),
                     edit c status_cutting, RunCommand (js ''ffmpeg'') (ffmpegArgs e c a),
                     edit c status_too_large] \<and>
       js_includes status_too_large
         (js ''Try a shorter segment or choose audio-only for a smaller file.''))"
proof -
  have l: "TELEGRAM_FILE_LIMIT = 52428800" by (simp add: TELEGRAM_FILE_LIMIT_def)
  have t1: "failed_prefix @ js ''Error: '' @ error_empty \<noteq> status_too_large"
    by (simp add: failed_prefix_def status_too_large_def)
  have t2: "js_includes error_empty (js ''the timestamps may be outside the video duration'')"
    by (simp add: error_empty_def js_def)
  have t3: "js_includes status_too_large
         (js ''Try a shorter segment or choose audio-only for a smaller file.'')"
    by (simp add: status_too_large_def js_def)
  have z: "fst (try_block e c w) = Threw error_empty \<and>
       outbox (processClip e c w) =
         outbox w @ [edit c status_downloading, RunCommand (js ''yt-dlp'') (ytdlpArgs e c),
                     edit c status_cutting, RunCommand (js ''ffmpeg'') (ffmpegArgs e c a),
                     edit c (failed_prefix @ js ''Error: '' @ error_empty)]" if "n = 0"
    using empty_run [OF assms(1-3)] assms(4) that by simp
  have g: "fst (try_block e c w) = Returned \<and>
       outbox (processClip e c w) =
         outbox w @ [edit c status_downloading, RunCommand (js ''yt-dlp'') (ytdlpArgs e c),
                     edit c status_cutting, RunCommand (js ''ffmpeg'') (ffmpegArgs e c a),
                     edit c status_too_large]" if "TELEGRAM_FILE_LIMIT < n"
    using too_large_run [OF assms(1-4)] that l by simp
  from l t1 t2 t3 z g show ?thesis by blast
qed

theorem size_check_outcomes_witness:
  "fst (try_block (sample_env 0) sample_call sample_world) = Threw error_empty \<and>
   last (outbox (processClip (sample_env 0) sample_call sample_world)) =
     edit sample_call (failed_prefix @ js ''Error: '' @ error_empty) \<and>
   TELEGRAM_FILE_LIMIT < 62914560 \<and>
   fst (try_block (sample_env 62914560) sample_call sample_world) = Returned \<and>
   last (outbox (processClip (sample_env 62914560) sample_call sample_world)) =
     edit sample_call status_too_large"
proof -
  have b: "TELEGRAM_FILE_LIMIT < 62914560" by (simp add: TELEGRAM_FILE_LIMIT_def)
  from size_check_outcomes [OF sample_download [of 0]]
  have 1: "fst (try_block (sample_env 0) sample_call sample_world) = Threw error_empty"
    and 2: "outbox (processClip (sample_env 0) sample_call sample_world) =
         outbox sample_world @
         [edit sample_call status_downloading,
          RunCommand (js ''yt-dlp'') (ytdlpArgs (sample_env 0) sample_call),
          edit sample_call status_cutting,
          RunCommand (js ''ffmpeg'')
            (ffmpegArgs (sample_env 0) sample_call (sample_uid @ js ''_raw.mkv'')),
          edit sample_call (failed_prefix @ js ''Error: '' @ error_empty)]"
    by blast+
  from size_check_outcomes [OF sample_download [of 62914560]] b
  have 3: "fst (try_block (sample_env 62914560) sample_call sample_world) = Returned"
    and 4: "outbox (processClip (sample_env 62914560) sample_call sample_world) =
         outbox sample_world @
         [edit sample_call status_downloading,
          RunCommand (js ''yt-dlp'') (ytdlpArgs (sample_env 62914560) sample_call),
          edit sample_call status_cutting,
          RunCommand (js ''ffmpeg'')
            (ffmpegArgs (sample_env 62914560) sample_call (sample_uid @ js ''_raw.mkv'')),
          edit sample_call status_too_large]"
    by blast+
  from 1 3 b show ?thesis unfolding 2 4 by simp
qed

text \<open>
  C3. Whatever way the \<^verbatim>\<open>try\<close> block ends, the \<^verbatim>\<open>finally\<close> block is applied to the
  directory it leaves. Afterwards the download path and the output path are absent unless
  their deletion failed, and, when the directory can be listed, so is every file that
  shares the base name of the download with any extension. A deletion that fails, and a
  listing that fails, change nothing of what the run sends: the outbox, with the final
  status, is the same for every behaviour of \<^verbatim>\<open>unlinkSync\<close> and \<^verbatim>\<open>readdirSync\<close>.
\<close>

theorem cleanup_on_every_exit:
  "files (processClip e c w) = finally_block e c (files (snd (try_block e c w))) \<and>
   (\<forall>n \<in> names (processClip e c w).
      n = downloadName e c \<or> n = outputName e c \<longrightarrow> unlink_fails e n) \<and>
   (\<not> readdir_fails e \<longrightarrow>
      (\<forall>n \<in> names (processClip e c w). variant_name e n \<longrightarrow> unlink_fails e n)) \<and>
   outbox (processClip (e\<lparr>unlink_fails := f, readdir_fails := b\<rparr>) c w) =
     outbox (processClip e c w)"
proof -
  have 1: "files (processClip e c w) = finally_block e c (files (snd (try_block e c w)))"
    by (rule processClip_files)
  have 2: "unlink_fails e n"
    if "n \<in> names (processClip e c w)" "n = downloadName e c \<or> n = outputName e c" for n
    using that finally_named [of n e c "files (snd (try_block e c w))"]
    by (simp add: names_def 1)
  have 3: "unlink_fails e n"
    if "\<not> readdir_fails e" "n \<in> names (processClip e c w)" "variant_name e n" for n
    using that finally_variants [of e n c "files (snd (try_block e c w))"]
    by (simp add: names_def 1)
  have 4: "outbox (processClip (e\<lparr>unlink_fails := f, readdir_fails := b\<rparr>) c w) =
     outbox (processClip e c w)"
    by (simp add: processClip_outbox try_block_ignores_cleanup)
  from 1 2 3 4 show ?thesis by blast
qed

lemma locked_files:
  "files (processClip locked_env sample_call sample_world) =
     [(sample_uid @ js ''_raw.mkv'', 1000), (js ''other.txt'', 3)]"
  "files (processClip (sample_env 500) sample_call sample_world) = [(js ''other.txt'', 3)]"
proof -
  have d: "yt_dlp locked_env = yt_dlp (sample_env 500)" "ffmpeg locked_env = ffmpeg (sample_env 500)"
    "ytdlpArgs locked_env = ytdlpArgs (sample_env 500)"
    "ffmpegArgs locked_env = ffmpegArgs (sample_env 500)"
    "downloadName locked_env = downloadName (sample_env 500)"
    "outputName locked_env = outputName (sample_env 500)"
    by (simp_all add: locked_env_def ytdlpArgs_def ffmpegArgs_def downloadName_def outputName_def
        tmp_path_def fun_eq_iff)
  have s: "files (snd (try_block (sample_env 500) sample_call sample_world)) =
      [(sample_uid @ js ''_clip.mp3'', 500), (sample_uid @ js ''_raw.mkv'', 1000),
       (js ''other.txt'', 3)]"
    unfolding size_check_reached [OF sample_download(1-3) [of 500]] size_check_files by simp
  have l: "files (snd (try_block locked_env sample_call sample_world)) =
      [(sample_uid @ js ''_clip.mp3'', 500), (sample_uid @ js ''_raw.mkv'', 1000),
       (js ''other.txt'', 3)]"
    unfolding size_check_reached [OF sample_download(1-3) [of 500, folded d]] size_check_files
    by simp
  show "files (processClip locked_env sample_call sample_world) =
     [(sample_uid @ js ''_raw.mkv'', 1000), (js ''other.txt'', 3)]"
    unfolding processClip_files l
    by (simp add: finally_block_def cleanupGlob_def cleanupFile_def existsSync_def
        strip_dot_star_def locked_env_def sample_env_def sample_call_def sample_uid_def
        downloadName_def outputName_def isAudio_def js_def)
  show "files (processClip (sample_env 500) sample_call sample_world) = [(js ''other.txt'', 3)]"
    unfolding processClip_files s
    by (simp add: finally_block_def cleanupGlob_def cleanupFile_def existsSync_def
        strip_dot_star_def sample_env_def sample_call_def sample_uid_def
        downloadName_def outputName_def isAudio_def js_def)
qed

theorem cleanup_on_every_exit_witness:
  "sample_uid @ js ''_raw.mkv'' \<in> names (processClip locked_env sample_call sample_world) \<and>
   variant_name locked_env (sample_uid @ js ''_raw.mkv'') \<and>
   \<not> readdir_fails locked_env \<and>
   unlink_fails locked_env (sample_uid @ js ''_raw.mkv'') \<and>
   names (processClip (sample_env 500) sample_call sample_world) = {js ''other.txt''}"
proof -
  have 1: "sample_uid @ js ''_raw.mkv'' \<in> names (processClip locked_env sample_call sample_world)"
    by (simp add: names_def locked_files)
  have 2: "variant_name locked_env (sample_uid @ js ''_raw.mkv'')"
    unfolding variant_name_def
    by (rule exI [of _ "js ''mkv''"]) (simp add: locked_env_def sample_env_def js_def)
  have 3: "\<not> readdir_fails locked_env" by (simp add: locked_env_def sample_env_def)
  from cleanup_on_every_exit [of locked_env sample_call sample_world] 1 2 3
  have 4: "unlink_fails locked_env (sample_uid @ js ''_raw.mkv'')" by blast
  have 5: "names (processClip (sample_env 500) sample_call sample_world) = {js ''other.txt''}"
    by (simp add: names_def locked_files)
  from 1 2 3 4 5 show ?thesis by blast
qed

text \<open>
  C6, amended. When the download tool exits with an error, the \<^verbatim>\<open>try\<close> block ends by an
  exception whose message names the tool, and the last status is the failure text with
  the download explanation (the link may be invalid or the video unavailable). When the
  tool succeeds but no file is found at the expected path or under a known extension, the
  block ends by the exception \<^verbatim>\<open>Download completed but file not found on disk.\<close>, and the
  last status is the failure text followed by \<^verbatim>\<open>Error:\<close> and that message. The three
  texts are those quoted in the last conjuncts, and the two statuses differ.
\<close>

theorem download_failure_messages:
  "(\<forall>detail d1. yt_dlp e (ytdlpArgs e c) (files w) = (Some detail, d1) \<longrightarrow>
      fst (try_block e c w) = Threw (js ''yt-dlp failed: '' @ detail) \<and>
      outbox (processClip e c w) =
        outbox w @ [edit c status_downloading, RunCommand (js ''yt-dlp'') (ytdlpArgs e c),
                    edit c (failed_prefix @ download_explanation)]) \<and>
   (\<forall>d1. yt_dlp e (ytdlpArgs e c) (files w) = (None, d1) \<and>
        findDownloadedFile d1 (downloadName e c) = None \<longrightarrow>
      fst (try_block e c w) = Threw error_not_found \<and>
      outbox (processClip e c w) =
        outbox w @ [edit c status_downloading, RunCommand (js ''yt-dlp'') (ytdlpArgs e c),
                    edit c (failed_prefix @ js ''Error: '' @ error_not_found)]) \<and>
   js_includes failed_prefix (js ''Something went wrong while processing your clip.'') \<and>
   js_includes download_explanation
     (js ''Could not download from YouTube. Please check that the link is valid and the video is publicly available.'') \<and>
   js_includes error_not_found (js ''Download completed but file not found on disk.'') \<and>
   failed_prefix @ js ''Error: '' @ error_not_found \<noteq> failed_prefix @ download_explanation"
proof -
  have 1: "js_includes failed_prefix (js ''Something went wrong while processing your clip.'')"
    by (simp add: failed_prefix_def js_def)
  have 2: "js_includes download_explanation
     (js ''Could not download from YouTube. Please check that the link is valid and the video is publicly available.'')"
    by (simp add: download_explanation_def js_def)
  have 3: "js_includes error_not_found (js ''Download completed but file not found on disk.'')"
    by (simp add: error_not_found_def js_def)
  have 4: "failed_prefix @ js ''Error: '' @ error_not_found \<noteq> failed_prefix @ download_explanation"
    by (simp add: download_explanation_def js_def)
  from download_failed_run [of e c w] not_found_run [of e c w] 1 2 3 4 show ?thesis by blast
qed

lemma silent_download:
  "yt_dlp silent_env (ytdlpArgs silent_env sample_call) (files sample_world) =
     (None, files sample_world)"
  "findDownloadedFile (files sample_world) (downloadName silent_env sample_call) = None"
  by (simp_all add: silent_env_def sample_env_def sample_world_def sample_call_def sample_uid_def
      findDownloadedFile_def existsSync_def downloadName_def isAudio_def
      base_name_def extname_def variants_def js_def)

lemma failing_download:
  "yt_dlp failing_env (ytdlpArgs failing_env sample_call) (files sample_world) =
     (Some (js ''ERROR: Video unavailable''), files sample_world)"
  by (simp add: failing_env_def sample_env_def)

theorem download_failure_messages_witness:
  "fst (try_block failing_env sample_call sample_world) =
     Threw (js ''yt-dlp failed: '' @ js ''ERROR: Video unavailable'') \<and>
   last (outbox (processClip failing_env sample_call sample_world)) =
     edit sample_call (failed_prefix @ download_explanation) \<and>
   fst (try_block silent_env sample_call sample_world) = Threw error_not_found \<and>
   last (outbox (processClip silent_env sample_call sample_world)) =
     edit sample_call (failed_prefix @ js ''Error: '' @ error_not_found)"
proof -
  from download_failure_messages [of failing_env sample_call sample_world] failing_download
  have 1: "fst (try_block failing_env sample_call sample_world) =
      Threw (js ''yt-dlp failed: '' @ js ''ERROR: Video unavailable'')"
    and 2: "outbox (processClip failing_env sample_call sample_world) =
        outbox sample_world @
        [edit sample_call status_downloading,
         RunCommand (js ''yt-dlp'') (ytdlpArgs failing_env sample_call),
         edit sample_call (failed_prefix @ download_explanation)]"
    by blast+
  from download_failure_messages [of silent_env sample_call sample_world] silent_download
  have 3: "fst (try_block silent_env sample_call sample_world) = Threw error_not_found"
    and 4: "outbox (processClip silent_env sample_call sample_world) =
        outbox sample_world @
        [edit sample_call status_downloading,
         RunCommand (js ''yt-dlp'') (ytdlpArgs silent_env sample_call),
         edit sample_call (failed_prefix @ js ''Error: '' @ error_not_found)]"
    by blast+
  from 1 3 show ?thesis unfolding 2 4 by simp
qed

text \<open>
  C6 as stated fails: here the download tool succeeds and leaves no file, the pipeline
  fails, and its last status is not the download explanation: it says nothing of a link
  or of a video being available.
\<close>

theorem missing_file_counterexample:
  "yt_dlp silent_env (ytdlpArgs silent_env sample_call) (files sample_world) =
     (None, files sample_world) \<and>
   findDownloadedFile (files sample_world) (downloadName silent_env sample_call) = None \<and>
   fst (try_block silent_env sample_call sample_world) = Threw error_not_found \<and>
   last (outbox (processClip silent_env sample_call sample_world)) =
     edit sample_call (failed_prefix @ js ''Error: '' @ error_not_found) \<and>
   last (outbox (processClip silent_env sample_call sample_world)) \<noteq>
     edit sample_call (failed_prefix @ download_explanation) \<and>
   js_includes download_explanation (js ''Please check that the link is valid'') \<and>
   \<not> js_includes (failed_prefix @ js ''Error: '' @ error_not_found) (js ''link'') \<and>
   \<not> js_includes (failed_prefix @ js ''Error: '' @ error_not_found) (js ''available'')"
proof -
  have 1: "fst (try_block silent_env sample_call sample_world) = Threw error_not_found"
    by (rule not_found_run(1) [OF silent_download])
  have 2: "last (outbox (processClip silent_env sample_call sample_world)) =
     edit sample_call (failed_prefix @ js ''Error: '' @ error_not_found)"
    unfolding not_found_run(2) [OF silent_download] by simp
  have 3: "edit sample_call (failed_prefix @ js ''Error: '' @ error_not_found) \<noteq>
     edit sample_call (failed_prefix @ download_explanation)"
    by (simp add: edit_def download_explanation_def js_def)
  have 4: "js_includes download_explanation (js ''Please check that the link is valid'')"
    by (simp add: download_explanation_def js_def)
  have 5: "\<not> js_includes (failed_prefix @ js ''Error: '' @ error_not_found) (js ''link'')"
    "\<not> js_includes (failed_prefix @ js ''Error: '' @ error_not_found) (js ''available'')"
    by (simp_all add: failed_prefix_def error_not_found_def js_def)
  from silent_download 1 2 3 4 5 show ?thesis by simp
qed

end
